theory Spec2Isabelle
  imports Main "HOL-Library.AList"
begin

section \<open>Host values and the object heap\<close>

text \<open>
  The program is JavaScript (strict mode: the whole module body is under
  \<^verbatim>\<open>'use strict'\<close>).  Its values are the primitives and references to heap
  objects.  An object is modelled by its own data properties, in insertion order, and by
  whether it can be called (\<^verbatim>\<open>typeof\<close> says \<^verbatim>\<open>'function'\<close> for it).
  Properties inherited through a prototype chain, accessors, and the built-in own
  properties of strings and of function objects are outside the model: the contexts are
  plain records of the data properties that the program or its host has assigned.
  Numbers are the integers, which is all the registry ids ever are.
\<close>

type_synonym addr = nat

datatype val = VUndefined | VNull | VBool bool | VNum int | VStr string | VRef addr

text \<open>
  What is thrown: the \<^verbatim>\<open>TypeError\<close> of the host, or whatever a user function throws.
\<close>

datatype error = TypeError | Thrown

record obj =
  props :: "(string \<times> val) list"
  callable :: bool

definition empty_obj :: obj where
  "empty_obj = \<lparr>props = [], callable = False\<rparr>"

text \<open>The heap is the list of the objects allocated so far; an address is an index.\<close>

definition obj_at :: "obj list \<Rightarrow> addr \<Rightarrow> obj" where
  "obj_at h a = (if a < length h then h ! a else empty_obj)"

definition own :: "obj list \<Rightarrow> addr \<Rightarrow> string \<Rightarrow> val" where
  "own h a k = (case map_of (props (obj_at h a)) k of None \<Rightarrow> VUndefined | Some v \<Rightarrow> v)"

definition put :: "obj list \<Rightarrow> addr \<Rightarrow> string \<Rightarrow> val \<Rightarrow> obj list" where
  "put h a k x = h[a := (obj_at h a)\<lparr>props := AList.update k x (props (obj_at h a))\<rparr>]"

definition typeof :: "obj list \<Rightarrow> val \<Rightarrow> string" where
  "typeof h v = (case v of
       VUndefined \<Rightarrow> ''undefined''
     | VNull \<Rightarrow> ''object''
     | VBool b \<Rightarrow> ''boolean''
     | VNum n \<Rightarrow> ''number''
     | VStr s \<Rightarrow> ''string''
     | VRef a \<Rightarrow> (if callable (obj_at h a) then ''function'' else ''object''))"

text \<open>
  \<^verbatim>\<open>x[k]\<close>: reading a property of \<^verbatim>\<open>undefined\<close> or \<^verbatim>\<open>null\<close> throws; a
  primitive has no own data property.
\<close>

fun get_prop :: "obj list \<Rightarrow> val \<Rightarrow> string \<Rightarrow> error + val" where
  "get_prop h VUndefined k = Inl TypeError"
| "get_prop h VNull k = Inl TypeError"
| "get_prop h (VRef a) k = Inr (own h a k)"
| "get_prop h v k = Inr VUndefined"

text \<open>
  \<^verbatim>\<open>x[k] = v\<close> in strict mode: creating a property on a primitive, on
  \<^verbatim>\<open>undefined\<close> or on \<^verbatim>\<open>null\<close> throws.
\<close>

fun set_prop :: "obj list \<Rightarrow> val \<Rightarrow> string \<Rightarrow> val \<Rightarrow> error + obj list" where
  "set_prop h (VRef a) k x = Inr (put h a k x)"
| "set_prop h v k x = Inl TypeError"

section \<open>Strings\<close>

text \<open>\<^verbatim>\<open>s.split('.')\<close>: never empty; the empty string gives one empty segment.\<close>

fun split_dot :: "string \<Rightarrow> string list" where
  "split_dot [] = [[]]"
| "split_dot (c # cs) =
     (if c = CHR ''.'' then [] # split_dot cs
      else (case split_dot cs of [] \<Rightarrow> [[c]] | w # ws \<Rightarrow> (c # w) # ws))"

text \<open>
  \<^verbatim>\<open>s.trim()\<close> over the code units below 256: tab, line feed, vertical tab, form feed,
  carriage return, space and the no-break space are white space.
\<close>

definition is_ws :: "char \<Rightarrow> bool" where
  "is_ws c = (of_char c \<in> {9, 10, 11, 12, 13, 32, 160 :: nat})"

definition trim :: "string \<Rightarrow> string" where
  "trim s = rev (dropWhile is_ws (rev (dropWhile is_ws s)))"

section \<open>The path resolver\<close>

text \<open>
  The loop of \<^verbatim>\<open>_getProperty\<close> over the segments, with \<^verbatim>\<open>propertyPrevious\<close> as
  \<open>prev\<close>.  A missing segment is assigned \<^verbatim>\<open>extendValue\<close> itself, whatever its position,
  and the walk goes on from what the assignment left there.
\<close>

fun walk :: "string list \<Rightarrow> val \<Rightarrow> val \<Rightarrow> obj list \<Rightarrow> (error + val) \<times> obj list" where
  "walk [] prev ext h = (Inr prev, h)"
| "walk (k # ks) prev ext h =
     (case get_prop h prev k of
        Inl e \<Rightarrow> (Inl e, h)
      | Inr p \<Rightarrow>
          if p = VUndefined then
            (if ext \<noteq> VUndefined then
               (case set_prop h prev k ext of
                  Inl e \<Rightarrow> (Inl e, h)
                | Inr h' \<Rightarrow>
                    (case get_prop h' prev k of
                       Inl e \<Rightarrow> (Inl e, h')
                     | Inr q \<Rightarrow> walk ks q ext h'))
             else (Inr VUndefined, h))
          else walk ks p ext h)"

definition getProperty :: "string \<Rightarrow> val \<Rightarrow> val \<Rightarrow> obj list \<Rightarrow> (error + val) \<times> obj list" where
  "getProperty propertyPathString context extendValue h =
     walk (split_dot propertyPathString) context extendValue h"

text \<open>
  The callers that take the path from a field of an object (\<^verbatim>\<open>this.path\<close>,
  \<^verbatim>\<open>property.path\<close>): anything but a string has no \<^verbatim>\<open>split\<close> to call.
\<close>

definition getProperty_of :: "val \<Rightarrow> val \<Rightarrow> val \<Rightarrow> obj list \<Rightarrow> (error + val) \<times> obj list" where
  "getProperty_of path context extendValue h =
     (case path of
        VStr p \<Rightarrow> getProperty p context extendValue h
      | _ \<Rightarrow> (Inl TypeError, h))"

section \<open>The module state\<close>

text \<open>
  An invocation of a user function is recorded with the pending ids at the moment of
  the call; \<open>ev_key\<close> is the pending entry that fired it (\<open>None\<close> for the direct
  call made by \<^verbatim>\<open>ready\<close>).  The record is ghost state: the program never reads it.
\<close>

record event =
  ev_fn :: addr
  ev_arg :: val
  ev_key :: "int option"
  ev_pending :: "int list"

record state =
  heap :: "obj list"
  properties :: "(int \<times> addr) list"
  counter :: int
  unready :: "(int \<times> val) list"
  isPaused :: bool
  calls :: "event list"

text \<open>
  What a user function does when called is a parameter of the model: a function from
  the address of the function object, its argument and the state to the state it leaves
  and to how it ends, by returning (\<open>None\<close>) or by throwing (\<open>Some e\<close>).
\<close>

type_synonym behaviour = "addr \<Rightarrow> val \<Rightarrow> state \<Rightarrow> error option \<times> state"

text \<open>
  The root object \<^verbatim>\<open>Ww\<close> is the first object of the heap.  The initial state is
  what the module body leaves: the root function with its two own properties, the two
  objects they hold and the five functions of these, no record and nothing pending.
\<close>

definition Ww_addr :: addr where
  "Ww_addr = 0"

definition fn_obj :: obj where
  "fn_obj = \<lparr>props = [], callable = True\<rparr>"

definition init :: state where
  "init = \<lparr>heap =
       [\<lparr>props = [(''_interval'', VRef 1), (''_propertiesUnready'', VRef 2)], callable = True\<rparr>,
        \<lparr>props = [(''pause'', VRef 3), (''resume'', VRef 4)], callable = False\<rparr>,
        \<lparr>props = [(''getIds'', VRef 5), (''process'', VRef 6), (''set'', VRef 7)],
         callable = False\<rparr>,
        fn_obj, fn_obj, fn_obj, fn_obj, fn_obj],
     properties = [], counter = 0, unready = [], isPaused = False, calls = []\<rparr>"

section \<open>The registry\<close>

definition Property_new :: "val \<Rightarrow> val \<Rightarrow> val \<Rightarrow> state \<Rightarrow> addr \<times> state" where
  "Property_new value path context st =
     (let r = length (heap st);
          this = \<lparr>props = [(''context'', context), (''id'', VNum (counter st)), (''path'', path),
                          (''type'', VStr (typeof (heap st) value)), (''value'', value)],
                  callable = False\<rparr>
      in (r, st\<lparr>heap := heap st @ [this],
                properties := AList.update (counter st) r (properties st),
                counter := counter st + 1\<rparr>))"

definition Property_update :: "addr \<Rightarrow> val \<Rightarrow> obj list \<Rightarrow> obj list" where
  "Property_update this value h = put (put h this ''type'' (VStr (typeof h value))) this ''value'' value"

section \<open>The snapshot\<close>

text \<open>
  \<^verbatim>\<open>new ww(property)\<close>: a new object that receives every own property of the record
  (the own keys of an object are distinct, so the copy is the list itself).
\<close>

definition ww_new :: "addr \<Rightarrow> state \<Rightarrow> addr \<times> state" where
  "ww_new property st =
     (length (heap st),
      st\<lparr>heap := heap st @ [\<lparr>props = props (obj_at (heap st) property), callable = False\<rparr>]\<rparr>)"

definition getContext :: "val \<Rightarrow> obj list \<Rightarrow> val" where
  "getContext context h =
     (if typeof h context = ''object'' \<or> typeof h context = ''function'' then context
      else VRef Ww_addr)"

definition Ww :: "val \<Rightarrow> val \<Rightarrow> state \<Rightarrow> (error + val) \<times> state" where
  "Ww propertyPathString context st =
     (case propertyPathString of
        VStr p \<Rightarrow>
          if length (trim p) = 0 then (Inr VUndefined, st)
          else
            (let c = getContext context (heap st) in
             case getProperty p c VUndefined (heap st) of
               (Inl e, h) \<Rightarrow> (Inl e, st\<lparr>heap := h\<rparr>)
             | (Inr v, h) \<Rightarrow>
                 (let (r, st1) = Property_new v (VStr p) c (st\<lparr>heap := h\<rparr>);
                      (s, st2) = ww_new r st1
                  in (Inr (VRef s), st2)))
      | VNum n \<Rightarrow>
          (case map_of (properties st) n of
             None \<Rightarrow> (Inr VUndefined, st)
           | Some r \<Rightarrow> (let (s, st1) = ww_new r st in (Inr (VRef s), st1)))
      | _ \<Rightarrow> (Inr VUndefined, st))"

definition ww_extend :: "addr \<Rightarrow> val \<Rightarrow> state \<Rightarrow> (error + val) \<times> state" where
  "ww_extend this value st =
     (let (v, h1) = (if value = VUndefined
                     then (VRef (length (heap st)), heap st @ [empty_obj])
                     else (value, heap st));
          (res, h2) = getProperty_of (own h1 this ''path'') (own h1 this ''context'') v h1
      in (res, st\<lparr>heap := h2\<rparr>))"

definition ww_getValue :: "addr \<Rightarrow> val \<Rightarrow> obj list \<Rightarrow> error + val" where
  "ww_getValue this defaultValue h =
     (case fst (getProperty_of (own h this ''path'') (own h this ''context'') VUndefined h) of
        Inl e \<Rightarrow> Inl e
      | Inr v \<Rightarrow> if v \<noteq> VUndefined then Inr v else Inr defaultValue)"

section \<open>The readiness engine\<close>

text \<open>
  \<^verbatim>\<open>_propertiesUnready\<close> is an object keyed by record ids.  Integer keys are
  enumerated in ascending order, and assigning to a key that is present replaces its
  value where it stands.
\<close>

fun ins :: "int \<Rightarrow> val \<Rightarrow> (int \<times> val) list \<Rightarrow> (int \<times> val) list" where
  "ins k v [] = [(k, v)]"
| "ins k v ((k', v') # xs) =
     (if k = k' then (k, v) # xs
      else if k < k' then (k, v) # (k', v') # xs
      else (k', v') # ins k v xs)"

definition PropertiesUnready_getIds :: "state \<Rightarrow> int list" where
  "PropertiesUnready_getIds st = map fst (unready st)"

definition PropertiesUnready_set :: "val \<Rightarrow> val \<Rightarrow> state \<Rightarrow> bool \<times> state" where
  "PropertiesUnready_set id' callback st =
     (if typeof (heap st) id' \<noteq> ''number'' \<or> typeof (heap st) callback \<noteq> ''function''
      then (False, st)
      else (case id' of
              VNum n \<Rightarrow>
                (case map_of (properties st) n of
                   None \<Rightarrow> (False, st)
                 | Some r \<Rightarrow> (True, st\<lparr>unready := ins n callback (unready st)\<rparr>))
            | _ \<Rightarrow> (False, st)))"

text \<open>
  Calling a value: only a function object can be called.  The call is recorded, then
  the behaviour of the function runs on the state; what it throws, the call throws.
\<close>

definition call_fn :: "behaviour \<Rightarrow> val \<Rightarrow> val \<Rightarrow> int option \<Rightarrow> state \<Rightarrow> error option \<times> state" where
  "call_fn B callee arg key st =
     (case callee of
        VRef f \<Rightarrow>
          if callable (obj_at (heap st) f)
          then B f arg (st\<lparr>calls := calls st @
                 [\<lparr>ev_fn = f, ev_arg = arg, ev_key = key, ev_pending = map fst (unready st)\<rparr>]\<rparr>)
          else (Some TypeError, st)
      | _ \<Rightarrow> (Some TypeError, st))"

text \<open>
  One round of the loop of \<^verbatim>\<open>process\<close>, for the key \<open>i\<close>: a key that is no longer
  an own property is skipped; the record is re-resolved; when a value is there the
  record is updated, the callback is called, and only then is the key deleted.  A
  callback that throws leaves the loop before the deletion.
\<close>

definition process_entry :: "behaviour \<Rightarrow> int \<Rightarrow> state \<Rightarrow> error option \<times> state" where
  "process_entry B i st =
     (case map_of (unready st) i of
        None \<Rightarrow> (None, st)
      | Some cb \<Rightarrow>
          (case map_of (properties st) i of
             None \<Rightarrow> (Some TypeError, st)
           | Some property \<Rightarrow>
               (case getProperty_of (own (heap st) property ''path'')
                       (own (heap st) property ''context'') VUndefined (heap st) of
                  (Inl e, h) \<Rightarrow> (Some e, st)
                | (Inr value, h) \<Rightarrow>
                    if value = VUndefined then (None, st)
                    else
                      (let st1 = st\<lparr>heap := Property_update property value (heap st)\<rparr> in
                       case call_fn B cb (VRef property) (Some i) st1 of
                         (Some e, st2) \<Rightarrow> (Some e, st2)
                       | (None, st2) \<Rightarrow> (None, st2\<lparr>unready := AList.delete i (unready st2)\<rparr>)))))"

fun process_keys :: "behaviour \<Rightarrow> int list \<Rightarrow> state \<Rightarrow> error option \<times> state" where
  "process_keys B [] st = (None, st)"
| "process_keys B (i # ks) st =
     (case process_entry B i st of
        (Some e, st') \<Rightarrow> (Some e, st')
      | (None, st') \<Rightarrow> process_keys B ks st')"

definition PropertiesUnready_process :: "behaviour \<Rightarrow> state \<Rightarrow> error option \<times> state" where
  "PropertiesUnready_process B st = process_keys B (map fst (unready st)) st"

definition Interval_pause :: "state \<Rightarrow> state" where
  "Interval_pause st = st\<lparr>isPaused := True\<rparr>"

definition Interval_resume :: "state \<Rightarrow> state" where
  "Interval_resume st = st\<lparr>isPaused := False\<rparr>"

text \<open>The body of the timer callback, without the re-arming of the timer.\<close>

definition Interval_callback :: "behaviour \<Rightarrow> state \<Rightarrow> error option \<times> state" where
  "Interval_callback B st =
     (if \<not> isPaused st then PropertiesUnready_process B st else (None, st))"

definition ww_ready :: "behaviour \<Rightarrow> addr \<Rightarrow> val \<Rightarrow> state \<Rightarrow> (error + bool) \<times> state" where
  "ww_ready B this callback st =
     (let isCallbackAFunction = (typeof (heap st) callback = ''function'') in
      if own (heap st) this ''type'' \<noteq> VStr ''undefined'' then
        (if isCallbackAFunction then
           (case call_fn B callback (VRef this) None st of
              (Some e, st1) \<Rightarrow> (Inl e, st1)
            | (None, st1) \<Rightarrow> (Inr True, st1))
         else (Inr True, st))
      else
        (if isCallbackAFunction
         then (Inr False, snd (PropertiesUnready_set (own (heap st) this ''id'') callback st))
         else (Inr False, st)))"

section \<open>Runs of the engine\<close>

text \<open>
  A run interleaves ticks of the timer with steps of the host program (which populates
  the contexts).  A tick after a throw is a tick all the same: the tests call
  \<^verbatim>\<open>process\<close> by hand.
\<close>

datatype step = Tick | Host "state \<Rightarrow> state"

fun run :: "behaviour \<Rightarrow> step list \<Rightarrow> state \<Rightarrow> state" where
  "run B [] st = st"
| "run B (Tick # ss) st = run B ss (snd (Interval_callback B st))"
| "run B (Host g # ss) st = run B ss (g st)"

text \<open>
  User code that does not itself call into the engine leaves the pending set and the
  record of calls alone.
\<close>

definition engine_opaque :: "behaviour \<Rightarrow> bool" where
  "engine_opaque B =
     (\<forall>f a st. unready (snd (B f a st)) = unready st \<and> calls (snd (B f a st)) = calls st)"

text \<open>User functions that never throw.\<close>

definition returns_normally :: "behaviour \<Rightarrow> bool" where
  "returns_normally B = (\<forall>f a st. fst (B f a st) = None)"

definition host_opaque :: "(state \<Rightarrow> state) \<Rightarrow> bool" where
  "host_opaque g = (\<forall>st. unready (g st) = unready st \<and> calls (g st) = calls st)"

fun steps_opaque :: "step list \<Rightarrow> bool" where
  "steps_opaque [] = True"
| "steps_opaque (Tick # ss) = steps_opaque ss"
| "steps_opaque (Host g # ss) = (host_opaque g \<and> steps_opaque ss)"

text \<open>
  \<open>called st st' es\<close>: from \<open>st\<close> to \<open>st'\<close> the engine made exactly the calls \<open>es\<close>,
  each for a key that was pending in \<open>st\<close> and still pending when the call was made,
  each to the callback stored under that key, and the pending set only lost entries.
\<close>

definition called :: "state \<Rightarrow> state \<Rightarrow> event list \<Rightarrow> bool" where
  "called st st' es =
     (calls st' = calls st @ es \<and>
      (\<forall>i. map_of (unready st') i = None \<or> map_of (unready st') i = map_of (unready st) i) \<and>
      (\<forall>e \<in> set es. \<exists>i. ev_key e = Some i \<and> i \<in> set (ev_pending e) \<and>
                        map_of (unready st) i = Some (VRef (ev_fn e))))"

text \<open>
  \<open>fired st st' es\<close>: from \<open>st\<close> to \<open>st'\<close> the engine made exactly the calls \<open>es\<close>,
  each for a key that was pending in \<open>st\<close> and still pending when the call was made,
  each to the callback stored under that key, no key twice, and the pending set lost
  exactly the keys that fired.
\<close>

definition fired :: "state \<Rightarrow> state \<Rightarrow> event list \<Rightarrow> bool" where
  "fired st st' es =
     (calls st' = calls st @ es \<and>
      unready st' = filter (\<lambda>kv. Some (fst kv) \<notin> ev_key ` set es) (unready st) \<and>
      (\<forall>e \<in> set es. \<exists>i. ev_key e = Some i \<and> i \<in> set (ev_pending e) \<and>
                        map_of (unready st) i = Some (VRef (ev_fn e))) \<and>
      distinct (map ev_key es))"

text \<open>
  The registry invariant: the ids issued are \<open>0\<close> up to the counter, in this order, and
  every record is an allocated object.
\<close>

definition wf_state :: "state \<Rightarrow> bool" where
  "wf_state st =
     (0 \<le> counter st \<and> map fst (properties st) = [0 .. counter st - 1] \<and>
      (\<forall>p \<in> set (properties st). snd p < length (heap st)))"

section \<open>Scenarios\<close>

text \<open>The host creating an object literal and assigning a property, as the tests do.\<close>

definition host_new :: "(string \<times> val) list \<Rightarrow> bool \<Rightarrow> state \<Rightarrow> state" where
  "host_new ps c st = st\<lparr>heap := heap st @ [\<lparr>props = ps, callable = c\<rparr>]\<rparr>"

definition host_set :: "addr \<Rightarrow> string \<Rightarrow> val \<Rightarrow> state \<Rightarrow> state" where
  "host_set a k x st = st\<lparr>heap := put (heap st) a k x\<rparr>"

text \<open>\<^verbatim>\<open>var mock = {};\<close> at address 8.\<close>

definition st_mock :: state where
  "st_mock = host_new [] False init"

text \<open>\<^verbatim>\<open>ww('a.b', mock)\<close>: record 9, snapshot 10, id 0.\<close>

definition st_ab :: state where
  "st_ab = snd (Ww (VStr ''a.b'') (VRef 8) st_mock)"

text \<open>
  A callback that looks at the pending ids while it runs:
  \<^verbatim>\<open>function (p) { mock.seen = ww._propertiesUnready.getIds().indexOf('0') !== -1; }\<close>
\<close>

definition spy :: behaviour where
  "spy f a st = (None, host_set 8 ''seen'' (VBool (0 \<in> set (PropertiesUnready_getIds st))) st)"

text \<open>A callback that throws: \<^verbatim>\<open>function (p) { throw new Error(); }\<close>\<close>

definition thrower :: behaviour where
  "thrower f a st = (Some Thrown, st)"

text \<open>
  \<^verbatim>\<open>var cb = function ...;\<close> at address 9, then \<^verbatim>\<open>var s = ww('a', mock)\<close> (record 10,
  snapshot 11, id 0) and \<^verbatim>\<open>s.ready(cb)\<close>; then the host sets \<^verbatim>\<open>mock.a = true\<close>.
\<close>

definition st_fn :: state where
  "st_fn = host_new [] True st_mock"

definition st_access :: state where
  "st_access = snd (Ww (VStr ''a'') (VRef 8) st_fn)"

definition st_pending :: state where
  "st_pending = snd (ww_ready spy 11 (VRef 9) st_access)"

definition st_resolvable :: state where
  "st_resolvable = host_set 8 ''a'' (VBool True) st_pending"

text \<open>
  A second access once the path resolves: \<^verbatim>\<open>ww('a', mock)\<close> gives record 12,
  snapshot 13, id 1.
\<close>

definition st_second :: state where
  "st_second = snd (Ww (VStr ''a'') (VRef 8) st_resolvable)"

text \<open>The state after the tick that resolves the pending entry.\<close>

definition st_ticked :: state where
  "st_ticked = snd (PropertiesUnready_process spy st_resolvable)"

text \<open>The path becomes available after the snapshot was made: \<^verbatim>\<open>mock.a = 42\<close>.\<close>

definition st_late :: state where
  "st_late = host_set 8 ''a'' (VNum 42) st_access"

text \<open>Another function object, at address 12 when created after the first access.\<close>

definition st_two_cbs :: state where
  "st_two_cbs = host_new [] True st_access"

section \<open>Basic facts of the heap, the resolver and the pending set\<close>

lemma length_put [simp]: "length (put h a k x) = length h"
  by (simp add: put_def)

lemma obj_at_append [simp]: "a < length h \<Longrightarrow> obj_at (h @ xs) a = obj_at h a"
  by (simp add: obj_at_def nth_append)

lemma obj_at_append_new [simp]: "obj_at (h @ [ob]) (length h) = ob"
  by (simp add: obj_at_def)

lemma own_append [simp]: "a < length h \<Longrightarrow> own (h @ xs) a k = own h a k"
  by (simp add: own_def)

lemma own_append_empty [simp]: "own (h @ [empty_obj]) a k = own h a k"
  by (cases "a < length h") (auto simp: own_def obj_at_def empty_obj_def nth_append)

lemma obj_at_put_other: "a \<noteq> b \<Longrightarrow> obj_at (put h b k x) a = obj_at h a"
  by (simp add: put_def obj_at_def)

lemma callable_put [simp]: "callable (obj_at (put h b k x) a) = callable (obj_at h a)"
  by (cases "a = b") (auto simp: put_def obj_at_def)

lemma typeof_put [simp]: "typeof (put h b k x) v = typeof h v"
  by (simp add: typeof_def split: val.splits)

lemma own_put:
  "own (put h b k x) a k' = (if a = b \<and> k' = k \<and> b < length h then x else own h a k')"
  by (auto simp: own_def put_def obj_at_def update_conv' nth_list_update)

lemma split_dot_nonempty [simp]: "split_dot s \<noteq> []"
  by (induction s) (auto split: list.splits)

lemma walk_noext_heap [simp]: "snd (walk ks prev VUndefined h) = h"
  by (induction ks arbitrary: prev) (auto split: sum.splits)

lemma getProperty_noext_heap [simp]: "snd (getProperty p c VUndefined h) = h"
  by (simp add: getProperty_def)

lemma getProperty_of_noext_heap [simp]: "snd (getProperty_of p c VUndefined h) = h"
  by (simp add: getProperty_of_def split: val.splits)

lemma walk_length [simp]: "length (snd (walk ks prev ext h)) = length h"
proof (induction ks arbitrary: prev h)
  case Nil
  show ?case by simp
next
  case (Cons k ks)
  show ?case
    by (cases prev) (auto simp: Cons.IH split: sum.splits)
qed

lemma walk_keeps:
  "(own h a k \<noteq> VUndefined \<or> k \<notin> set ks) \<Longrightarrow> own (snd (walk ks prev ext h)) a k = own h a k"
proof (induction ks arbitrary: prev h)
  case Nil
  show ?case by simp
next
  case (Cons k' ks)
  have step: "own (put h b k' ext) a k = own h a k \<and>
       (own (put h b k' ext) a k \<noteq> VUndefined \<or> k \<notin> set ks)"
    if "own h b k' = VUndefined" for b
    using Cons.prems that by (auto simp: own_put)
  show ?case
  proof (cases prev)
    case (VRef b)
    show ?thesis
    proof (cases "own h b k' = VUndefined")
      case True
      with VRef step[OF True] Cons.IH[of "put h b k' ext"] show ?thesis
        using Cons.prems by auto
    next
      case False
      with VRef Cons.IH[of h] Cons.prems show ?thesis by auto
    qed
  qed (auto)
qed

lemma walk_callable [simp]:
  "callable (obj_at (snd (walk ks prev ext h)) a) = callable (obj_at h a)"
proof (induction ks arbitrary: prev h)
  case Nil
  show ?case by simp
next
  case (Cons k ks)
  show ?case
    by (cases prev) (auto simp: Cons.IH split: sum.splits)
qed

lemma walk_resolved:
  "fst (walk ks prev VUndefined h) = Inr v \<Longrightarrow> v \<noteq> VUndefined \<Longrightarrow> walk ks prev ext h = (Inr v, h)"
proof (induction ks arbitrary: prev)
  case Nil
  then show ?case by simp
next
  case (Cons k ks)
  then show ?case
    by (cases prev) (auto split: sum.splits if_splits)
qed

lemma map_of_ins [simp]: "map_of (ins k v xs) = (map_of xs)(k \<mapsto> v)"
  by (induction xs) (auto simp: fun_eq_iff)

lemma keys_ins [simp]: "fst ` set (ins k v xs) = insert k (fst ` set xs)"
  by (simp add: dom_map_of_conv_image_fst [symmetric])

lemma sorted_ins:
  "sorted_wrt (<) (map fst xs) \<Longrightarrow> sorted_wrt (<) (map fst (ins k v xs))"
proof (induction xs)
  case Nil
  show ?case by simp
next
  case (Cons x xs)
  obtain k' v' where x: "x = (k', v')" by (cases x)
  from Cons show ?case
    unfolding x by (auto simp: image_iff) 
qed

lemma filter_key_notin:
  "\<forall>kv \<in> set xs. fst kv \<noteq> k \<Longrightarrow> filter (\<lambda>kv. fst kv = k) xs = []"
  by (induction xs) auto

lemma filter_key_ins:
  "sorted_wrt (<) (map fst xs) \<Longrightarrow> filter (\<lambda>kv. fst kv = k) (ins k v xs) = [(k, v)]"
proof (induction xs)
  case Nil
  show ?case by simp
next
  case (Cons x xs)
  obtain k' v' where x: "x = (k', v')" by (cases x)
  from Cons show ?case
    unfolding x by (auto intro!: filter_key_notin)
qed

lemmas scenario_defs =
  st_mock_def st_ab_def st_fn_def host_new_def host_set_def init_def fn_obj_def empty_obj_def Ww_addr_def

lemmas code_defs =
  Ww_def getContext_def getProperty_def getProperty_of_def typeof_def trim_def is_ws_def
  Property_new_def Property_update_def ww_new_def ww_extend_def ww_getValue_def
  own_def obj_at_def put_def

lemma get_prop_append_empty [simp]: "get_prop (h @ [empty_obj]) x k = get_prop h x k"
  by (cases x) simp_all

lemma walk_noext_append_empty:
  "fst (walk ks prev VUndefined (h @ [empty_obj])) = fst (walk ks prev VUndefined h)"
  by (induction ks arbitrary: prev) (auto split: sum.splits)

lemma walk_append:
  "ext \<noteq> VUndefined \<Longrightarrow>
   walk (ks @ ks') prev ext h =
     (case walk ks prev ext h of (Inl e, h1) \<Rightarrow> (Inl e, h1) | (Inr q, h1) \<Rightarrow> walk ks' q ext h1)"
proof (induction ks arbitrary: prev h)
  case Nil
  show ?case by simp
next
  case (Cons k ks)
  show ?case
    by (cases prev) (auto simp: Cons split: sum.splits)
qed

lemma walk_then_resolves:
  "walk ks prev ext h = (Inr v, h') \<Longrightarrow> v \<noteq> VUndefined \<Longrightarrow> ks \<noteq> [] \<Longrightarrow>
   walk ks prev VUndefined h' = (Inr v, h')"
proof (induction ks arbitrary: prev h)
  case Nil
  then show ?case by simp
next
  case (Cons k ks)
  from Cons.prems(1,2) obtain b where prev: "prev = VRef b"
    by (cases prev) (auto split: if_splits)
  show ?case
  proof (cases "own h b k = VUndefined")
    case False
    with Cons.prems(1) prev have w: "walk ks (own h b k) ext h = (Inr v, h')" by simp
    have keep: "own h' b k = own h b k"
      using walk_keeps[of h b k ks "own h b k" ext] False w by simp
    show ?thesis
    proof (cases "ks = []")
      case True
      with w have "v = own h b k" "h' = h" by auto
      with True prev False show ?thesis by simp
    next
      case ne: False
      from Cons.IH[OF w Cons.prems(2) ne] prev keep False show ?thesis by simp
    qed
  next
    case True
    with Cons.prems(1,2) prev have ext: "ext \<noteq> VUndefined" by (auto split: if_splits)
    let ?h1 = "put h b k ext"
    from Cons.prems(1) prev True ext have w: "walk ks (own ?h1 b k) ext ?h1 = (Inr v, h')" by simp
    have q: "own ?h1 b k \<noteq> VUndefined"
    proof
      assume u: "own ?h1 b k = VUndefined"
      show False
      proof (cases ks)
        case Nil
        with w u Cons.prems(2) show False by simp
      next
        case (Cons k' ks')
        with w u show False by simp
      qed
    qed
    have keep: "own h' b k = own ?h1 b k"
      using walk_keeps[of ?h1 b k ks "own ?h1 b k" ext] q w by simp
    show ?thesis
    proof (cases "ks = []")
      case True
      with w have "v = own ?h1 b k" "h' = ?h1" by auto
      with True prev q show ?thesis by simp
    next
      case ne: False
      from Cons.IH[OF w Cons.prems(2) ne] prev keep q show ?thesis by simp
    qed
  qed
qed

section \<open>The calls made by the engine\<close>

lemma map_of_filter_key:
  "map_of (filter (\<lambda>kv. P (fst kv)) xs) k = (if P k then map_of xs k else None)"
  by (induction xs) auto

lemma delete_filter: "AList.delete i xs = filter (\<lambda>kv. fst kv \<noteq> i) xs"
  by (induction xs) auto

lemma map_of_delete_key:
  "map_of (AList.delete i xs) k = (if k \<noteq> i then map_of xs k else None)"
  unfolding delete_filter by (rule map_of_filter_key)

text \<open>The outcome of one round of the loop: nothing is called, or the callback is.\<close>

lemma process_entry_cases:
  assumes B: "engine_opaque B"
  obtains
    (idle) "calls (snd (process_entry B i st)) = calls st"
           "unready (snd (process_entry B i st)) = unready st"
  | (call) f r e st2 where
      "map_of (unready st) i = Some (VRef f)"
      "calls st2 = calls st @ [\<lparr>ev_fn = f, ev_arg = VRef r, ev_key = Some i,
                                 ev_pending = map fst (unready st)\<rparr>]"
      "unready st2 = unready st"
      "process_entry B i st =
         (case e of Some x \<Rightarrow> (Some x, st2)
                  | None \<Rightarrow> (None, st2\<lparr>unready := AList.delete i (unready st)\<rparr>))"
      "\<exists>a s. e = fst (B f a s)"
proof (cases "map_of (unready st) i")
  case None
  then show ?thesis by (intro idle) (simp_all add: process_entry_def)
next
  case (Some cb)
  note cb = this
  show ?thesis
  proof (cases "map_of (properties st) i")
    case None
    with cb show ?thesis by (intro idle) (simp_all add: process_entry_def)
  next
    case (Some r)
    note r = this
    obtain res h where g: "getProperty_of (own (heap st) r ''path'')
                       (own (heap st) r ''context'') VUndefined (heap st) = (res, h)"
      by (cases "getProperty_of (own (heap st) r ''path'')
                       (own (heap st) r ''context'') VUndefined (heap st)")
    show ?thesis
    proof (cases res)
      case (Inl e)
      with cb r g show ?thesis by (intro idle) (simp_all add: process_entry_def)
    next
      case (Inr v)
      note v = this
      show ?thesis
      proof (cases "v = VUndefined")
        case True
        with cb r g v show ?thesis by (intro idle) (simp_all add: process_entry_def)
      next
        case False
        define st1 where "st1 = st\<lparr>heap := Property_update r v (heap st)\<rparr>"
        have pe: "process_entry B i st =
            (case call_fn B cb (VRef r) (Some i) st1 of
                         (Some e, st2) \<Rightarrow> (Some e, st2)
                       | (None, st2) \<Rightarrow> (None, st2\<lparr>unready := AList.delete i (unready st2)\<rparr>))"
          unfolding st1_def using cb r g v False
          by (simp add: process_entry_def Let_def)
        show ?thesis
        proof (cases "\<exists>f. cb = VRef f \<and> callable (obj_at (heap st1) f)")
          case False
          then have "call_fn B cb (VRef r) (Some i) st1 = (Some TypeError, st1)"
            by (auto simp: call_fn_def split: val.splits)
          with pe have "snd (process_entry B i st) = st1" by simp
          then show ?thesis by (intro idle) (simp_all add: st1_def)
        next
          case True
          then obtain f where f: "cb = VRef f" "callable (obj_at (heap st1) f)" by blast
          let ?ev = "\<lparr>ev_fn = f, ev_arg = VRef r, ev_key = Some i,
                      ev_pending = map fst (unready st)\<rparr>"
          let ?arg = "st1\<lparr>calls := calls st1 @ [\<lparr>ev_fn = f, ev_arg = VRef r, ev_key = Some i,
                      ev_pending = map fst (unready st1)\<rparr>]\<rparr>"
          have cf: "call_fn B cb (VRef r) (Some i) st1 = B f (VRef r) ?arg"
            using f by (simp add: call_fn_def)
          obtain e st2 where b: "B f (VRef r) ?arg = (e, st2)"
            by (cases "B f (VRef r) ?arg")
          have "unready (snd (B f (VRef r) ?arg)) = unready ?arg"
            "calls (snd (B f (VRef r) ?arg)) = calls ?arg"
            using B by (simp_all add: engine_opaque_def)
          then have u2: "unready st2 = unready st" and c2: "calls st2 = calls st @ [?ev]"
            unfolding b by (simp_all add: st1_def)
          have p: "process_entry B i st =
             (case e of Some x \<Rightarrow> (Some x, st2)
                  | None \<Rightarrow> (None, st2\<lparr>unready := AList.delete i (unready st)\<rparr>))"
            unfolding pe cf b using u2 by (simp split: option.splits)
          have "\<exists>a s. e = fst (B f a s)" using b by (metis fst_conv)
          with cb f(1) c2 u2 p show ?thesis by (intro call[of f st2 r e]) simp_all
        qed
      qed
    qed
  qed
qed

lemma called_refl: "called st st []"
  by (simp add: called_def)

lemma called_trans:
  assumes a: "called st st1 es1" and b: "called st1 st2 es2"
  shows "called st st2 (es1 @ es2)"
proof -
  have sub1: "map_of (unready st1) i = None \<or> map_of (unready st1) i = map_of (unready st) i" for i
    using a by (simp add: called_def)
  have sub2: "map_of (unready st2) i = None \<or> map_of (unready st2) i = map_of (unready st1) i" for i
    using b by (simp add: called_def)
  have sub: "\<forall>i. map_of (unready st2) i = None \<or> map_of (unready st2) i = map_of (unready st) i"
    using sub1 sub2 by metis
  have a1: "\<exists>i. ev_key e = Some i \<and> i \<in> set (ev_pending e) \<and>
       map_of (unready st) i = Some (VRef (ev_fn e))" if "e \<in> set es1" for e
    using a that unfolding called_def by blast
  have a2: "\<exists>i. ev_key e = Some i \<and> i \<in> set (ev_pending e) \<and>
       map_of (unready st) i = Some (VRef (ev_fn e))" if "e \<in> set es2" for e
  proof -
    from b that obtain i where i: "ev_key e = Some i" "i \<in> set (ev_pending e)"
      "map_of (unready st1) i = Some (VRef (ev_fn e))"
      unfolding called_def by blast
    from i(3) sub1[of i] have "map_of (unready st) i = Some (VRef (ev_fn e))" by auto
    with i show ?thesis by blast
  qed
  have all: "\<forall>e \<in> set (es1 @ es2). \<exists>i. ev_key e = Some i \<and> i \<in> set (ev_pending e) \<and>
                        map_of (unready st) i = Some (VRef (ev_fn e))"
  proof
    fix e assume "e \<in> set (es1 @ es2)"
    then consider "e \<in> set es1" | "e \<in> set es2" by auto
    then show "\<exists>i. ev_key e = Some i \<and> i \<in> set (ev_pending e) \<and>
                        map_of (unready st) i = Some (VRef (ev_fn e))"
      by cases (rule a1, assumption, rule a2, assumption)
  qed
  have c: "calls st2 = calls st @ es1 @ es2"
    using a b by (simp add: called_def)
  show ?thesis
    unfolding called_def using c sub all by simp
qed

lemma called_entry:
  assumes B: "engine_opaque B"
  shows "\<exists>es. called st (snd (process_entry B i st)) es"
proof (rule process_entry_cases[OF B, of i st], goal_cases)
  case 1
  then have "called st (snd (process_entry B i st)) []" by (simp add: called_def)
  then show ?case ..
next
  case (2 f r e st2)
  let ?ev = "\<lparr>ev_fn = f, ev_arg = VRef r, ev_key = Some i, ev_pending = map fst (unready st)\<rparr>"
  have inp: "i \<in> set (map fst (unready st))"
    using 2(1) by (force dest: map_of_SomeD)
  have "called st (snd (process_entry B i st)) [?ev]"
    unfolding called_def 2(4) using 2(1,2,3) inp
    by (cases e) (simp_all add: map_of_delete_key)
  then show ?case ..
qed

lemma called_keys:
  assumes B: "engine_opaque B"
  shows "\<exists>es. called st (snd (process_keys B ks st)) es"
proof (induction ks arbitrary: st)
  case Nil
  show ?case by (auto intro: called_refl)
next
  case (Cons i ks)
  obtain r st' where pe: "process_entry B i st = (r, st')"
    by (cases "process_entry B i st")
  from called_entry[OF B, of st i] pe obtain es1 where e1: "called st st' es1" by auto
  show ?case
  proof (cases r)
    case None
    from Cons.IH[of st'] obtain es2 where "called st' (snd (process_keys B ks st')) es2" by blast
    with e1 have "called st (snd (process_keys B ks st')) (es1 @ es2)" by (rule called_trans)
    with pe None show ?thesis by auto
  next
    case (Some e)
    with pe e1 show ?thesis by auto
  qed
qed

lemma called_tick:
  "engine_opaque B \<Longrightarrow> \<exists>es. called st (snd (Interval_callback B st)) es"
  by (auto simp: Interval_callback_def PropertiesUnready_process_def intro: called_keys called_refl)

lemma called_run:
  assumes B: "engine_opaque B"
  shows "steps_opaque ss \<Longrightarrow> \<exists>es. called st (run B ss st) es"
proof (induction ss arbitrary: st)
  case Nil
  show ?case by (auto intro: called_refl)
next
  case (Cons s ss)
  show ?case
  proof (cases s)
    case Tick
    from called_tick[OF B, of st] obtain es1 where e1: "called st (snd (Interval_callback B st)) es1" ..
    from Cons Tick obtain es2 where
      "called (snd (Interval_callback B st)) (run B ss (snd (Interval_callback B st))) es2"
      by force
    with e1 have "called st (run B ss (snd (Interval_callback B st))) (es1 @ es2)"
      by (rule called_trans)
    with Tick show ?thesis by auto
  next
    case (Host g)
    with Cons.prems have g: "host_opaque g" and ss: "steps_opaque ss" by auto
    from g have e1: "called st (g st) []" by (simp add: host_opaque_def called_def)
    from Cons.IH[OF ss, of "g st"] obtain es2 where "called (g st) (run B ss (g st)) es2" ..
    with e1 have "called st (run B ss (g st)) ([] @ es2)" by (rule called_trans)
    with Host show ?thesis by auto
  qed
qed

lemma fired_refl: "fired st st []"
  by (simp add: fired_def)

lemma fired_same: "calls st' = calls st \<Longrightarrow> unready st' = unready st \<Longrightarrow> fired st st' []"
  by (simp add: fired_def)

lemma fired_trans:
  assumes a: "fired st st1 es1" and b: "fired st1 st2 es2"
  shows "fired st st2 (es1 @ es2)"
proof -
  have u1: "unready st1 = filter (\<lambda>kv. Some (fst kv) \<notin> ev_key ` set es1) (unready st)"
    using a by (simp add: fired_def)
  have m1: "map_of (unready st1) i = (if Some i \<notin> ev_key ` set es1 then map_of (unready st) i else None)" for i
    unfolding u1 by (rule map_of_filter_key)
  have e2: "\<exists>i. ev_key e = Some i \<and> i \<in> set (ev_pending e) \<and>
       map_of (unready st) i = Some (VRef (ev_fn e)) \<and> Some i \<notin> ev_key ` set es1"
    if "e \<in> set es2" for e
  proof -
    from b that obtain i where i: "ev_key e = Some i" "i \<in> set (ev_pending e)"
      "map_of (unready st1) i = Some (VRef (ev_fn e))"
      unfolding fired_def by blast
    from i(3) m1[of i] have "Some i \<notin> ev_key ` set es1 \<and> map_of (unready st) i = Some (VRef (ev_fn e))"
      by (auto split: if_splits)
    with i show ?thesis by blast
  qed
  have notin: "ev_key e \<notin> ev_key ` set es1" if "e \<in> set es2" for e
    using e2[OF that] by (elim exE conjE) simp
  have disj: "ev_key ` set es1 \<inter> ev_key ` set es2 = {}"
    unfolding disjoint_iff image_iff using notin by (metis image_iff)
  have c: "calls st2 = calls st @ es1 @ es2"
    using a b by (simp add: fired_def)
  have u: "unready st2 = filter (\<lambda>kv. Some (fst kv) \<notin> ev_key ` set (es1 @ es2)) (unready st)"
    using b unfolding fired_def u1 by (auto simp: image_Un intro: filter_cong)
  have a1: "\<exists>i. ev_key e = Some i \<and> i \<in> set (ev_pending e) \<and>
       map_of (unready st) i = Some (VRef (ev_fn e))" if "e \<in> set es1" for e
    using a that unfolding fired_def by blast
  have all: "\<forall>e \<in> set (es1 @ es2). \<exists>i. ev_key e = Some i \<and> i \<in> set (ev_pending e) \<and>
                        map_of (unready st) i = Some (VRef (ev_fn e))"
  proof
    fix e assume "e \<in> set (es1 @ es2)"
    then consider "e \<in> set es1" | "e \<in> set es2" by auto
    then show "\<exists>i. ev_key e = Some i \<and> i \<in> set (ev_pending e) \<and>
                        map_of (unready st) i = Some (VRef (ev_fn e))"
    proof cases
      case 1
      then show ?thesis by (rule a1)
    next
      case 2
      from e2[OF 2] show ?thesis by blast
    qed
  qed
  have d: "distinct (map ev_key (es1 @ es2))"
    using a b disj by (simp add: fired_def)
  show ?thesis
    unfolding fired_def using c u all d by blast
qed

lemma fired_entry:
  assumes B: "engine_opaque B" and R: "returns_normally B"
  shows "\<exists>es. fired st (snd (process_entry B i st)) es"
proof (rule process_entry_cases[OF B, of i st], goal_cases)
  case 1
  then have "fired st (snd (process_entry B i st)) []" by (rule fired_same)
  then show ?case ..
next
  case (2 f r e st2)
  from 2(5) R have e: "e = None" by (auto simp: returns_normally_def)
  let ?ev = "\<lparr>ev_fn = f, ev_arg = VRef r, ev_key = Some i, ev_pending = map fst (unready st)\<rparr>"
  have inp: "i \<in> set (map fst (unready st))"
    using 2(1) by (force dest: map_of_SomeD)
  have "fired st (snd (process_entry B i st)) [?ev]"
    unfolding fired_def 2(4) e using 2(1,2,3) inp
    by (auto simp: delete_filter intro: filter_cong)
  then show ?case ..
qed

lemma fired_keys:
  assumes B: "engine_opaque B" and R: "returns_normally B"
  shows "\<exists>es. fired st (snd (process_keys B ks st)) es"
proof (induction ks arbitrary: st)
  case Nil
  show ?case by (auto intro: fired_refl)
next
  case (Cons i ks)
  obtain r st' where pe: "process_entry B i st = (r, st')"
    by (cases "process_entry B i st")
  from fired_entry[OF B R, of st i] pe obtain es1 where e1: "fired st st' es1" by auto
  show ?case
  proof (cases r)
    case None
    from Cons.IH[of st'] obtain es2 where "fired st' (snd (process_keys B ks st')) es2" by blast
    with e1 have "fired st (snd (process_keys B ks st')) (es1 @ es2)" by (rule fired_trans)
    with pe None show ?thesis by auto
  next
    case (Some e)
    with pe e1 show ?thesis by auto
  qed
qed

lemma fired_tick:
  "engine_opaque B \<Longrightarrow> returns_normally B \<Longrightarrow>
     \<exists>es. fired st (snd (Interval_callback B st)) es"
  by (auto simp: Interval_callback_def PropertiesUnready_process_def intro: fired_keys fired_refl)

lemma fired_run:
  assumes B: "engine_opaque B" and R: "returns_normally B"
  shows "steps_opaque ss \<Longrightarrow> \<exists>es. fired st (run B ss st) es"
proof (induction ss arbitrary: st)
  case Nil
  show ?case by (auto intro: fired_refl)
next
  case (Cons s ss)
  show ?case
  proof (cases s)
    case Tick
    from fired_tick[OF B R, of st] obtain es1 where e1: "fired st (snd (Interval_callback B st)) es1" ..
    from Cons Tick obtain es2 where
      "fired (snd (Interval_callback B st)) (run B ss (snd (Interval_callback B st))) es2"
      by force
    with e1 have "fired st (run B ss (snd (Interval_callback B st))) (es1 @ es2)" by (rule fired_trans)
    with Tick show ?thesis by auto
  next
    case (Host g)
    with Cons.prems have g: "host_opaque g" and ss: "steps_opaque ss" by auto
    from g have e1: "fired st (g st) []" by (auto simp: host_opaque_def intro: fired_same)
    from Cons.IH[OF ss, of "g st"] obtain es2 where "fired (g st) (run B ss (g st)) es2" ..
    with e1 have "fired st (run B ss (g st)) ([] @ es2)" by (rule fired_trans)
    with Host show ?thesis by auto
  qed
qed

lemma distinct_key_once:
  "distinct (map f es) \<Longrightarrow> length (filter (\<lambda>e. f e = k) es) \<le> 1"
proof (induction es)
  case Nil
  show ?case by simp
next
  case (Cons e es)
  show ?case
  proof (cases "f e = k")
    case True
    have "f e \<notin> f ` set es" using Cons.prems by simp
    then have "\<forall>x \<in> set es. f x \<noteq> k" unfolding True [symmetric] image_iff by metis
    then have "filter (\<lambda>e. f e = k) es = []" by (simp add: filter_empty_conv)
    with True show ?thesis by simp
  next
    case False
    with Cons show ?thesis by simp
  qed
qed

lemma fired_once:
  "fired st st' es \<Longrightarrow> length (filter (\<lambda>e. ev_key e = k) es) \<le> 1"
  unfolding fired_def using distinct_key_once [of ev_key es k] by simp

lemma engine_opaque_spy: "engine_opaque spy"
  by (simp add: engine_opaque_def spy_def host_set_def)

lemma returns_normally_spy: "returns_normally spy"
  by (simp add: returns_normally_def spy_def)

lemma engine_opaque_thrower: "engine_opaque thrower"
  by (simp add: engine_opaque_def thrower_def)

lemma host_opaque_host_set: "host_opaque (host_set a k x)"
  by (simp add: host_opaque_def host_set_def)

lemma ins_ins [simp]: "ins k v (ins k w xs) = ins k v xs"
  by (induction xs) auto

section \<open>What the facade returns, and the registry invariant\<close>

lemma Ww_string_result:
  assumes "Ww (VStr p) c st = (Inr (VRef s), st1)"
  shows "\<exists>v. fst (getProperty p (getContext c (heap st)) VUndefined (heap st)) = Inr v \<and>
           s = Suc (length (heap st)) \<and>
           st1 = st\<lparr>heap := heap st @
                  [\<lparr>props = [(''context'', getContext c (heap st)), (''id'', VNum (counter st)),
                             (''path'', VStr p), (''type'', VStr (typeof (heap st) v)),
                             (''value'', v)], callable = False\<rparr>,
                   \<lparr>props = [(''context'', getContext c (heap st)), (''id'', VNum (counter st)),
                             (''path'', VStr p), (''type'', VStr (typeof (heap st) v)),
                             (''value'', v)], callable = False\<rparr>],
                properties := AList.update (counter st) (length (heap st)) (properties st),
                counter := counter st + 1\<rparr>"
proof -
  obtain res h where g: "getProperty p (getContext c (heap st)) VUndefined (heap st) = (res, h)"
    by (cases "getProperty p (getContext c (heap st)) VUndefined (heap st)")
  have h: "h = heap st"
    using getProperty_noext_heap[of p "getContext c (heap st)" "heap st"] g by simp
  from assms g h show ?thesis
    by (cases res)
      (auto simp: Ww_def Let_def Property_new_def ww_new_def obj_at_def split: if_splits)
qed

lemma Ww_num_result:
  assumes "Ww (VNum n) c st = (Inr (VRef s), st1)"
  shows "\<exists>r. map_of (properties st) n = Some r \<and> s = length (heap st) \<and>
           st1 = st\<lparr>heap := heap st @ [\<lparr>props = props (obj_at (heap st) r), callable = False\<rparr>]\<rparr>"
  using assms by (auto simp: Ww_def ww_new_def split: option.splits)

lemma Ww_other_result:
  "Ww x c st = (Inr (VRef s), st1) \<Longrightarrow> (\<exists>p. x = VStr p) \<or> (\<exists>n. x = VNum n)"
  by (cases x) (auto simp: Ww_def)

lemma update_fresh_key:
  "k \<notin> fst ` set ps \<Longrightarrow> AList.update k v ps = ps @ [(k, v)]"
  by (induction ps) auto

lemma wf_keys: "wf_state st \<Longrightarrow> fst ` set (properties st) = {0 .. counter st - 1}"
proof -
  assume "wf_state st"
  then have "map fst (properties st) = [0 .. counter st - 1]" by (simp add: wf_state_def)
  then have "set (map fst (properties st)) = set [0 .. counter st - 1]" by simp
  then show ?thesis by simp
qed

lemma wf_lookup_None:
  "wf_state st \<Longrightarrow> i < 0 \<or> counter st \<le> i \<Longrightarrow> map_of (properties st) i = None"
  using wf_keys[of st] by (auto simp: map_of_eq_None_iff)

lemma wf_lookup_bound:
  "wf_state st \<Longrightarrow> map_of (properties st) i = Some r \<Longrightarrow> r < length (heap st)"
  by (auto simp: wf_state_def dest!: map_of_SomeD)

lemma wf_init: "wf_state init"
  by (simp add: wf_state_def init_def)

lemma wf_Ww:
  assumes wf: "wf_state st"
  shows "wf_state (snd (Ww x c st))"
proof (cases "\<exists>s. fst (Ww x c st) = Inr (VRef s)")
  case False
  have "snd (Ww x c st) = st"
  proof (cases x)
    case (VStr p)
    obtain res h where g: "getProperty p (getContext c (heap st)) VUndefined (heap st) = (res, h)"
      by (cases "getProperty p (getContext c (heap st)) VUndefined (heap st)")
    have h: "h = heap st"
      using getProperty_noext_heap[of p "getContext c (heap st)" "heap st"] g by simp
    from False VStr g h show ?thesis
      by (cases res) (auto simp: Ww_def Let_def Property_new_def ww_new_def split: if_splits)
  next
    case (VNum n)
    with False show ?thesis by (auto simp: Ww_def ww_new_def split: option.splits)
  qed (auto simp: Ww_def)
  with wf show ?thesis by simp
next
  case True
  then obtain s where s: "Ww x c st = (Inr (VRef s), snd (Ww x c st))"
    by (cases "Ww x c st") auto
  from Ww_other_result[OF s] show ?thesis
  proof (elim disjE exE)
    fix p assume x: "x = VStr p"
    from Ww_string_result[OF s[unfolded x]] obtain v where
      st1: "snd (Ww x c st) = st\<lparr>heap := heap st @
                  [\<lparr>props = [(''context'', getContext c (heap st)), (''id'', VNum (counter st)),
                             (''path'', VStr p), (''type'', VStr (typeof (heap st) v)),
                             (''value'', v)], callable = False\<rparr>,
                   \<lparr>props = [(''context'', getContext c (heap st)), (''id'', VNum (counter st)),
                             (''path'', VStr p), (''type'', VStr (typeof (heap st) v)),
                             (''value'', v)], callable = False\<rparr>],
                properties := AList.update (counter st) (length (heap st)) (properties st),
                counter := counter st + 1\<rparr>"
      unfolding x by blast
    have fresh: "counter st \<notin> fst ` set (properties st)"
      using wf_keys[OF wf] by simp
    have c0: "0 \<le> counter st" using wf by (simp add: wf_state_def)
    have "[0 .. counter st] = [0 .. counter st - 1] @ [counter st]"
      using c0 by (simp add: upto_rec2)
    then show ?thesis
      using wf unfolding st1 wf_state_def
      by (auto simp: update_fresh_key[OF fresh])
  next
    fix n assume x: "x = VNum n"
    from Ww_num_result[OF s[unfolded x]] obtain r where
      st1: "snd (Ww x c st) = st\<lparr>heap := heap st @
              [\<lparr>props = props (obj_at (heap st) r), callable = False\<rparr>]\<rparr>"
      unfolding x by blast
    have "\<forall>p \<in> set (properties st). snd p < Suc (length (heap st))"
      using wf unfolding wf_state_def by (metis less_SucI)
    then show ?thesis
      using wf unfolding st1 wf_state_def by simp
  qed
qed

lemma own_append_props:
  "own (h @ [\<lparr>props = props (obj_at h r), callable = b\<rparr>]) (length h) k = own h r k"
  by (simp add: own_def)

lemma own_Property_update:
  "k \<noteq> ''type'' \<Longrightarrow> k \<noteq> ''value'' \<Longrightarrow> own (Property_update r v h) a k = own h a k"
  by (simp add: Property_update_def own_put)

lemma wf_st_fn: "wf_state st_fn"
  by code_simp

lemma wf_st_ticked: "wf_state st_ticked"
  by code_simp

lemma wf_st_resolvable: "wf_state st_resolvable"
  by code_simp

section \<open>The tick\<close>

text \<open>
  C1, as the claim states it: the entry is removed before its callback runs, so the
  callback never runs while its id is pending.  With \<^verbatim>\<open>mock = {}\<close>,
  \<^verbatim>\<open>ww('a', mock).ready(cb)\<close>, \<^verbatim>\<open>mock.a = true\<close> and one tick, the callback is
  called while the pending ids are \<^verbatim>\<open>['0']\<close>, its own id among them, and it sees so
  itself.
\<close>

theorem tick_calls_while_pending_counterexample:
  "calls (snd (PropertiesUnready_process spy st_resolvable))
     = [\<lparr>ev_fn = 9, ev_arg = VRef 10, ev_key = Some 0, ev_pending = [0]\<rparr>] \<and>
   own (heap (snd (PropertiesUnready_process spy st_resolvable))) 8 ''seen'' = VBool True"
  by code_simp

text \<open>
  C1, amended.  On every tick, each call made by the engine is made for a key that is
  still in the pending set at the moment of the call; with callbacks that return, the
  key is out of the pending set when the tick ends.  For a pending entry whose record
  re-resolves to a value, the record is updated, then the callback runs (the id still
  pending), and the entry is deleted after the callback has returned; a callback that
  throws ends the round before the deletion.  The callbacks are those that do not call
  into the engine themselves.
\<close>

theorem tick_calls_then_removes:
  assumes B: "engine_opaque B"
  shows "(\<exists>es. calls (snd (PropertiesUnready_process B st)) = calls st @ es \<and>
           (\<forall>e \<in> set es. \<exists>i. ev_key e = Some i \<and> i \<in> set (ev_pending e) \<and>
               (returns_normally B \<longrightarrow>
                  i \<notin> fst ` set (unready (snd (PropertiesUnready_process B st)))))) \<and>
         (map_of (unready st) i = Some (VRef f) \<and> callable (obj_at (heap st) f) \<and>
          map_of (properties st) i = Some r \<and>
          fst (getProperty_of (own (heap st) r ''path'') (own (heap st) r ''context'')
                 VUndefined (heap st)) = Inr v \<and> v \<noteq> VUndefined \<longrightarrow>
          i \<in> set (map fst (unready st)) \<and>
          process_entry B i st =
            (case B f (VRef r)
                    (st\<lparr>heap := Property_update r v (heap st),
                        calls := calls st @ [\<lparr>ev_fn = f, ev_arg = VRef r, ev_key = Some i,
                                               ev_pending = map fst (unready st)\<rparr>]\<rparr>) of
               (None, st2) \<Rightarrow> (None, st2\<lparr>unready := AList.delete i (unready st)\<rparr>)
             | (Some e, st2) \<Rightarrow> (Some e, st2)))"
proof
  let ?st' = "snd (PropertiesUnready_process B st)"
  from called_keys[OF B, of st "map fst (unready st)"]
  obtain es where es: "called st ?st' es"
    by (auto simp: PropertiesUnready_process_def)
  have c: "calls ?st' = calls st @ es" using es by (simp add: called_def)
  have gone: "i \<notin> fst ` set (unready ?st')"
    if R: "returns_normally B" and e: "e \<in> set es" and i: "ev_key e = Some i" for e i
  proof -
    from fired_keys[OF B R, of st "map fst (unready st)"]
    obtain es' where es': "fired st ?st' es'"
      by (auto simp: PropertiesUnready_process_def)
    then have "calls ?st' = calls st @ es'" by (simp add: fired_def)
    with c have "es' = es" by simp
    with es' have "unready ?st' = filter (\<lambda>kv. Some (fst kv) \<notin> ev_key ` set es) (unready st)"
      by (simp add: fired_def)
    moreover have "Some i \<in> ev_key ` set es" using e i by (metis imageI)
    ultimately show ?thesis by auto
  qed
  have "\<exists>i. ev_key e = Some i \<and> i \<in> set (ev_pending e) \<and>
          (returns_normally B \<longrightarrow> i \<notin> fst ` set (unready ?st'))"
    if e: "e \<in> set es" for e
  proof -
    from es e obtain i where i: "ev_key e = Some i" "i \<in> set (ev_pending e)"
      unfolding called_def by blast
    with gone[OF _ e i(1)] show ?thesis by blast
  qed
  with c show "\<exists>es. calls ?st' = calls st @ es \<and>
           (\<forall>e \<in> set es. \<exists>i. ev_key e = Some i \<and> i \<in> set (ev_pending e) \<and>
               (returns_normally B \<longrightarrow> i \<notin> fst ` set (unready ?st')))"
    by blast
next
  let ?arg = "st\<lparr>heap := Property_update r v (heap st),
                        calls := calls st @ [\<lparr>ev_fn = f, ev_arg = VRef r, ev_key = Some i,
                                               ev_pending = map fst (unready st)\<rparr>]\<rparr>"
  show "map_of (unready st) i = Some (VRef f) \<and> callable (obj_at (heap st) f) \<and>
          map_of (properties st) i = Some r \<and>
          fst (getProperty_of (own (heap st) r ''path'') (own (heap st) r ''context'')
                 VUndefined (heap st)) = Inr v \<and> v \<noteq> VUndefined \<longrightarrow>
          i \<in> set (map fst (unready st)) \<and>
          process_entry B i st =
            (case B f (VRef r) ?arg of
               (None, st2) \<Rightarrow> (None, st2\<lparr>unready := AList.delete i (unready st)\<rparr>)
             | (Some e, st2) \<Rightarrow> (Some e, st2))"
  proof (intro impI, elim conjE)
    assume u: "map_of (unready st) i = Some (VRef f)"
      and c: "callable (obj_at (heap st) f)"
      and p: "map_of (properties st) i = Some r"
      and g: "fst (getProperty_of (own (heap st) r ''path'') (own (heap st) r ''context'')
                 VUndefined (heap st)) = Inr v"
      and v: "v \<noteq> VUndefined"
    obtain h where g': "getProperty_of (own (heap st) r ''path'') (own (heap st) r ''context'')
                 VUndefined (heap st) = (Inr v, h)"
      using g by (cases "getProperty_of (own (heap st) r ''path'') (own (heap st) r ''context'')
                 VUndefined (heap st)") auto
    have cu: "callable (obj_at (Property_update r v (heap st)) f)"
      using c by (simp add: Property_update_def)
    obtain e st2 where b: "B f (VRef r) ?arg = (e, st2)" by (cases "B f (VRef r) ?arg")
    have "unready (snd (B f (VRef r) ?arg)) = unready ?arg"
      using B by (simp add: engine_opaque_def)
    then have u2: "unready st2 = unready st" unfolding b by simp
    have pe: "process_entry B i st =
            (case B f (VRef r) ?arg of
               (None, st2) \<Rightarrow> (None, st2\<lparr>unready := AList.delete i (unready st)\<rparr>)
             | (Some e, st2) \<Rightarrow> (Some e, st2))"
      using u p g' v cu u2 unfolding b
      by (cases e) (simp_all add: process_entry_def call_fn_def Let_def b)
    moreover have "i \<in> set (map fst (unready st))"
      using u by (force dest: map_of_SomeD)
    ultimately show "i \<in> set (map fst (unready st)) \<and> process_entry B i st =
            (case B f (VRef r) ?arg of
               (None, st2) \<Rightarrow> (None, st2\<lparr>unready := AList.delete i (unready st)\<rparr>)
             | (Some e, st2) \<Rightarrow> (Some e, st2))" by blast
  qed
qed

theorem tick_calls_then_removes_witness:
  "engine_opaque spy \<and> returns_normally spy \<and>
   map_of (unready st_resolvable) 0 = Some (VRef 9) \<and>
   callable (obj_at (heap st_resolvable) 9) \<and>
   map_of (properties st_resolvable) 0 = Some 10 \<and>
   fst (getProperty_of (own (heap st_resolvable) 10 ''path'')
          (own (heap st_resolvable) 10 ''context'') VUndefined (heap st_resolvable))
     = Inr (VBool True) \<and>
   (\<exists>es. calls (snd (PropertiesUnready_process spy st_resolvable)) = calls st_resolvable @ es \<and>
      (\<forall>e \<in> set es. \<exists>i. ev_key e = Some i \<and> i \<in> set (ev_pending e) \<and>
          i \<notin> fst ` set (unready (snd (PropertiesUnready_process spy st_resolvable))))) \<and>
   0 \<in> set (map fst (unready st_resolvable)) \<and>
   process_entry spy 0 st_resolvable =
     (None, (snd (spy 9 (VRef 10)
               (st_resolvable\<lparr>heap := Property_update 10 (VBool True) (heap st_resolvable),
                  calls := calls st_resolvable @
                    [\<lparr>ev_fn = 9, ev_arg = VRef 10, ev_key = Some 0,
                      ev_pending = map fst (unready st_resolvable)\<rparr>]\<rparr>)))
            \<lparr>unready := AList.delete 0 (unready st_resolvable)\<rparr>) \<and>
   process_entry thrower 0 st_resolvable =
     (Some Thrown,
      st_resolvable\<lparr>heap := Property_update 10 (VBool True) (heap st_resolvable),
                  calls := calls st_resolvable @
                    [\<lparr>ev_fn = 9, ev_arg = VRef 10, ev_key = Some 0,
                      ev_pending = map fst (unready st_resolvable)\<rparr>]\<rparr>)"
proof -
  have h1: "map_of (unready st_resolvable) 0 = Some (VRef 9)" by code_simp
  have h2: "callable (obj_at (heap st_resolvable) 9)" by code_simp
  have h3: "map_of (properties st_resolvable) 0 = Some 10" by code_simp
  have h4: "fst (getProperty_of (own (heap st_resolvable) 10 ''path'')
          (own (heap st_resolvable) 10 ''context'') VUndefined (heap st_resolvable))
     = Inr (VBool True)" by code_simp
  have h5: "VBool True \<noteq> VUndefined" by simp
  note t = tick_calls_then_removes [OF engine_opaque_spy, of st_resolvable 0 9 10 "VBool True"]
  note t' = tick_calls_then_removes [OF engine_opaque_thrower, of st_resolvable 0 9 10 "VBool True"]
  from t returns_normally_spy
  have x1: "\<exists>es. calls (snd (PropertiesUnready_process spy st_resolvable)) = calls st_resolvable @ es \<and>
      (\<forall>e \<in> set es. \<exists>i. ev_key e = Some i \<and> i \<in> set (ev_pending e) \<and>
          i \<notin> fst ` set (unready (snd (PropertiesUnready_process spy st_resolvable))))"
    by blast
  from t h1 h2 h3 h4 h5 have x2: "0 \<in> set (map fst (unready st_resolvable))" by blast
  let ?arg = "st_resolvable\<lparr>heap := Property_update 10 (VBool True) (heap st_resolvable),
                  calls := calls st_resolvable @
                    [\<lparr>ev_fn = 9, ev_arg = VRef 10, ev_key = Some 0,
                      ev_pending = map fst (unready st_resolvable)\<rparr>]\<rparr>"
  from t h1 h2 h3 h4 h5 have "process_entry spy 0 st_resolvable =
     (case spy 9 (VRef 10) ?arg of
               (None, st2) \<Rightarrow> (None, st2\<lparr>unready := AList.delete 0 (unready st_resolvable)\<rparr>)
             | (Some e, st2) \<Rightarrow> (Some e, st2))"
    by blast
  then have x3: "process_entry spy 0 st_resolvable =
     (None, (snd (spy 9 (VRef 10) ?arg))\<lparr>unready := AList.delete 0 (unready st_resolvable)\<rparr>)"
    by (simp add: spy_def)
  from t' h1 h2 h3 h4 h5 have "process_entry thrower 0 st_resolvable =
     (case thrower 9 (VRef 10) ?arg of
               (None, st2) \<Rightarrow> (None, st2\<lparr>unready := AList.delete 0 (unready st_resolvable)\<rparr>)
             | (Some e, st2) \<Rightarrow> (Some e, st2))"
    by blast
  then have x4: "process_entry thrower 0 st_resolvable = (Some Thrown, ?arg)"
    by (simp add: thrower_def)
  from x1 x2 x3 x4 h1 h2 h3 h4 engine_opaque_spy returns_normally_spy show ?thesis by blast
qed

section \<open>The pending set\<close>

text \<open>
  C9.  The pending set holds one callback per record id.  Scheduling \<open>f2\<close> for an id
  for which \<open>f1\<close> was scheduled leaves one entry for the id, which holds \<open>f2\<close>; in
  every later run of ticks and host steps, what the engine calls for this id is \<open>f2\<close>:
  the earlier callback is never called for the entry.  With callbacks that return, the
  engine calls for the id at most once.
\<close>

theorem pending_one_callback_per_id:
  assumes B: "engine_opaque B" and ss: "steps_opaque ss"
    and srt: "sorted_wrt (<) (map fst (unready st))"
    and p: "map_of (properties st) i = Some r"
    and c1: "callable (obj_at (heap st) f1)" and c2: "callable (obj_at (heap st) f2)"
  shows "PropertiesUnready_set (VNum i) (VRef f2) (snd (PropertiesUnready_set (VNum i) (VRef f1) st))
           = (True, st\<lparr>unready := ins i (VRef f2) (unready st)\<rparr>) \<and>
         filter (\<lambda>kv. fst kv = i) (ins i (VRef f2) (unready st)) = [(i, VRef f2)] \<and>
         (\<exists>es. calls (run B ss (st\<lparr>unready := ins i (VRef f2) (unready st)\<rparr>)) = calls st @ es \<and>
            (\<forall>e \<in> set es. ev_key e = Some i \<longrightarrow> ev_fn e = f2) \<and>
            (returns_normally B \<longrightarrow> length (filter (\<lambda>e. ev_key e = Some i) es) \<le> 1))"
proof (intro conjI)
  show "PropertiesUnready_set (VNum i) (VRef f2) (snd (PropertiesUnready_set (VNum i) (VRef f1) st))
           = (True, st\<lparr>unready := ins i (VRef f2) (unready st)\<rparr>)"
    using p c1 c2 by (simp add: PropertiesUnready_set_def typeof_def)
  show "filter (\<lambda>kv. fst kv = i) (ins i (VRef f2) (unready st)) = [(i, VRef f2)]"
    using srt by (rule filter_key_ins)
  let ?st2 = "st\<lparr>unready := ins i (VRef f2) (unready st)\<rparr>"
  from called_run[OF B ss, of ?st2] obtain es where es: "called ?st2 (run B ss ?st2) es" ..
  have fn: "ev_fn e = f2" if "e \<in> set es" "ev_key e = Some i" for e
  proof -
    from es that(1) obtain j where "ev_key e = Some j" "map_of (unready ?st2) j = Some (VRef (ev_fn e))"
      unfolding called_def by blast
    with that(2) show ?thesis by simp
  qed
  have c: "calls (run B ss ?st2) = calls st @ es" using es by (simp add: called_def)
  have once: "length (filter (\<lambda>e. ev_key e = Some i) es) \<le> 1" if R: "returns_normally B"
  proof -
    from fired_run[OF B R ss, of ?st2] obtain es' where es': "fired ?st2 (run B ss ?st2) es'" ..
    then have "calls (run B ss ?st2) = calls st @ es'" by (simp add: fired_def)
    with c have "es' = es" by simp
    with fired_once[OF es', of "Some i"] show ?thesis by simp
  qed
  from fn c once show "\<exists>es. calls (run B ss ?st2) = calls st @ es \<and>
            (\<forall>e \<in> set es. ev_key e = Some i \<longrightarrow> ev_fn e = f2) \<and>
            (returns_normally B \<longrightarrow> length (filter (\<lambda>e. ev_key e = Some i) es) \<le> 1)"
    by blast
qed

theorem pending_one_callback_per_id_witness:
  "engine_opaque spy \<and> returns_normally spy \<and>
   steps_opaque [Tick, Host (host_set 8 ''a'' (VBool True)), Tick, Tick] \<and>
   sorted_wrt (<) (map fst (unready st_two_cbs)) \<and>
   map_of (properties st_two_cbs) 0 = Some 10 \<and>
   callable (obj_at (heap st_two_cbs) 9) \<and> callable (obj_at (heap st_two_cbs) 12) \<and>
   PropertiesUnready_set (VNum 0) (VRef 12) (snd (PropertiesUnready_set (VNum 0) (VRef 9) st_two_cbs))
     = (True, st_two_cbs\<lparr>unready := ins 0 (VRef 12) (unready st_two_cbs)\<rparr>) \<and>
   filter (\<lambda>kv. fst kv = 0) (ins 0 (VRef 12) (unready st_two_cbs)) = [(0, VRef 12)] \<and>
   (\<exists>es. calls (run spy [Tick, Host (host_set 8 ''a'' (VBool True)), Tick, Tick]
                  (st_two_cbs\<lparr>unready := ins 0 (VRef 12) (unready st_two_cbs)\<rparr>))
            = calls st_two_cbs @ es \<and>
          (\<forall>e \<in> set es. ev_key e = Some 0 \<longrightarrow> ev_fn e = 12) \<and>
          length (filter (\<lambda>e. ev_key e = Some 0) es) \<le> 1) \<and>
   calls (run spy [Tick, Host (host_set 8 ''a'' (VBool True)), Tick, Tick]
            (st_two_cbs\<lparr>unready := ins 0 (VRef 12) (unready st_two_cbs)\<rparr>))
     = [\<lparr>ev_fn = 12, ev_arg = VRef 10, ev_key = Some 0, ev_pending = [0]\<rparr>]"
proof -
  have h2: "steps_opaque [Tick, Host (host_set 8 ''a'' (VBool True)), Tick, Tick]"
    by (simp add: host_opaque_host_set)
  have h3: "sorted_wrt (<) (map fst (unready st_two_cbs))" by code_simp
  have h4: "map_of (properties st_two_cbs) 0 = Some 10" by code_simp
  have h5: "callable (obj_at (heap st_two_cbs) 9)" by code_simp
  have h6: "callable (obj_at (heap st_two_cbs) 12)" by code_simp
  have r: "calls (run spy [Tick, Host (host_set 8 ''a'' (VBool True)), Tick, Tick]
            (st_two_cbs\<lparr>unready := ins 0 (VRef 12) (unready st_two_cbs)\<rparr>))
     = [\<lparr>ev_fn = 12, ev_arg = VRef 10, ev_key = Some 0, ev_pending = [0]\<rparr>]"
    by code_simp
  note t = pending_one_callback_per_id [OF engine_opaque_spy h2 h3 h4 h5 h6]
  from t returns_normally_spy have x: "PropertiesUnready_set (VNum 0) (VRef 12) (snd (PropertiesUnready_set (VNum 0) (VRef 9) st_two_cbs))
     = (True, st_two_cbs\<lparr>unready := ins 0 (VRef 12) (unready st_two_cbs)\<rparr>) \<and>
   filter (\<lambda>kv. fst kv = 0) (ins 0 (VRef 12) (unready st_two_cbs)) = [(0, VRef 12)] \<and>
   (\<exists>es. calls (run spy [Tick, Host (host_set 8 ''a'' (VBool True)), Tick, Tick]
                  (st_two_cbs\<lparr>unready := ins 0 (VRef 12) (unready st_two_cbs)\<rparr>))
            = calls st_two_cbs @ es \<and>
          (\<forall>e \<in> set es. ev_key e = Some 0 \<longrightarrow> ev_fn e = 12) \<and>
          length (filter (\<lambda>e. ev_key e = Some 0) es) \<le> 1)"
    by blast
  from x h2 h3 h4 h5 h6 r engine_opaque_spy returns_normally_spy show ?thesis by blast
qed

section \<open>Readiness\<close>

text \<open>
  C4, as the claim states it: with the value present \<^verbatim>\<open>ready(cb)\<close> calls \<^verbatim>\<open>cb\<close>
  and reports ready, and a deferred callback is called at most once over the ticks.
  On the snapshot of \<^verbatim>\<open>ww('a', mock)\<close> made before \<^verbatim>\<open>mock.a = 42\<close>, the value is
  present (\<^verbatim>\<open>getValue()\<close> is 42) and \<^verbatim>\<open>ready(cb)\<close> answers \<^verbatim>\<open>false\<close> and calls
  nothing.  And a deferred callback that throws stays pending: two calls of
  \<^verbatim>\<open>process()\<close> call it twice.
\<close>

theorem ready_tag_and_throw_counterexample:
  "ww_getValue 11 VUndefined (heap st_late) = Inr (VNum 42) \<and>
   fst (ww_ready spy 11 (VRef 9) st_late) = Inr False \<and>
   calls (snd (ww_ready spy 11 (VRef 9) st_late)) = [] \<and>
   unready st_resolvable = [(0, VRef 9)] \<and>
   calls (snd (PropertiesUnready_process thrower
            (snd (PropertiesUnready_process thrower st_resolvable))))
     = [\<lparr>ev_fn = 9, ev_arg = VRef 10, ev_key = Some 0, ev_pending = [0]\<rparr>,
        \<lparr>ev_fn = 9, ev_arg = VRef 10, ev_key = Some 0, ev_pending = [0]\<rparr>]"
  by code_simp

text \<open>
  C4, amended.  \<^verbatim>\<open>ready\<close> decides on the type tag of the snapshot, not on the value
  that the path has at the time of the call.  With a function and a tag other than
  \<^verbatim>\<open>'undefined'\<close>: the function is called within the call, on the snapshot, and the
  result is \<^verbatim>\<open>true\<close> when the function returns.  With a function and the tag
  \<^verbatim>\<open>'undefined'\<close>: the result is \<^verbatim>\<open>false\<close>, the function is stored in the pending
  set under the snapshot's id and is not called by \<^verbatim>\<open>ready\<close>; in every later run of
  ticks and host steps in which the callbacks return and neither they nor the host
  steps call into the engine, each call is made by a tick, and the entry is called at
  most once, with this function.  Without a function: the result is what the tag says
  and nothing changes.
\<close>

theorem ready_contract:
  "(own (heap st) s ''type'' \<noteq> VStr ''undefined'' \<and> callable (obj_at (heap st) f) \<longrightarrow>
      ww_ready B s (VRef f) st =
        (case B f (VRef s) (st\<lparr>calls := calls st @
                [\<lparr>ev_fn = f, ev_arg = VRef s, ev_key = None,
                  ev_pending = map fst (unready st)\<rparr>]\<rparr>) of
           (None, st1) \<Rightarrow> (Inr True, st1)
         | (Some e, st1) \<Rightarrow> (Inl e, st1))) \<and>
   (own (heap st) s ''type'' = VStr ''undefined'' \<and> callable (obj_at (heap st) f) \<and>
    own (heap st) s ''id'' = VNum i \<and> map_of (properties st) i = Some r \<longrightarrow>
      ww_ready B s (VRef f) st = (Inr False, st\<lparr>unready := ins i (VRef f) (unready st)\<rparr>) \<and>
      (engine_opaque B \<and> returns_normally B \<and> steps_opaque ss \<longrightarrow>
         (\<exists>es. calls (run B ss (st\<lparr>unready := ins i (VRef f) (unready st)\<rparr>)) = calls st @ es \<and>
            (\<forall>e \<in> set es. ev_key e \<noteq> None) \<and>
            (\<forall>e \<in> set es. ev_key e = Some i \<longrightarrow> ev_fn e = f) \<and>
            length (filter (\<lambda>e. ev_key e = Some i) es) \<le> 1))) \<and>
   (typeof (heap st) cb \<noteq> ''function'' \<longrightarrow>
      ww_ready B s cb st = (Inr (own (heap st) s ''type'' \<noteq> VStr ''undefined''), st))"
proof (intro conjI impI)
  let ?arg = "st\<lparr>calls := calls st @
                [\<lparr>ev_fn = f, ev_arg = VRef s, ev_key = None,
                  ev_pending = map fst (unready st)\<rparr>]\<rparr>"
  assume a: "own (heap st) s ''type'' \<noteq> VStr ''undefined'' \<and> callable (obj_at (heap st) f)"
  obtain e st1 where b: "B f (VRef s) ?arg = (e, st1)" by (cases "B f (VRef s) ?arg")
  from a show "ww_ready B s (VRef f) st =
        (case B f (VRef s) ?arg of
           (None, st1) \<Rightarrow> (Inr True, st1)
         | (Some e, st1) \<Rightarrow> (Inl e, st1))"
    unfolding b by (cases e) (simp_all add: ww_ready_def call_fn_def typeof_def b)
next
  assume a: "own (heap st) s ''type'' = VStr ''undefined'' \<and> callable (obj_at (heap st) f) \<and>
      own (heap st) s ''id'' = VNum i \<and> map_of (properties st) i = Some r"
  then show "ww_ready B s (VRef f) st = (Inr False, st\<lparr>unready := ins i (VRef f) (unready st)\<rparr>)"
    by (simp add: ww_ready_def PropertiesUnready_set_def typeof_def)
next
  assume h: "engine_opaque B \<and> returns_normally B \<and> steps_opaque ss"
  let ?st2 = "st\<lparr>unready := ins i (VRef f) (unready st)\<rparr>"
  from h have B: "engine_opaque B" and R: "returns_normally B" and ss: "steps_opaque ss"
    by simp_all
  from fired_run[OF B R ss, of ?st2] obtain es where es: "fired ?st2 (run B ss ?st2) es" ..
  have k: "ev_key e \<noteq> None \<and> (ev_key e = Some i \<longrightarrow> ev_fn e = f)" if "e \<in> set es" for e
  proof -
    from es that obtain j where "ev_key e = Some j" "map_of (unready ?st2) j = Some (VRef (ev_fn e))"
      unfolding fired_def by blast
    then show ?thesis by auto
  qed
  have "calls (run B ss ?st2) = calls st @ es" using es by (simp add: fired_def)
  moreover note fired_once[OF es, of "Some i"]
  ultimately show "\<exists>es. calls (run B ss ?st2) = calls st @ es \<and>
           (\<forall>e \<in> set es. ev_key e \<noteq> None) \<and>
           (\<forall>e \<in> set es. ev_key e = Some i \<longrightarrow> ev_fn e = f) \<and>
           length (filter (\<lambda>e. ev_key e = Some i) es) \<le> 1"
    using k by blast
next
  assume "typeof (heap st) cb \<noteq> ''function''"
  then show "ww_ready B s cb st = (Inr (own (heap st) s ''type'' \<noteq> VStr ''undefined''), st)"
    by (simp add: ww_ready_def)
qed

theorem ready_contract_witness:
  "engine_opaque spy \<and> returns_normally spy \<and>
   steps_opaque [Tick, Host (host_set 8 ''a'' (VBool True)), Tick, Tick] \<and>
   own (heap st_second) 13 ''type'' \<noteq> VStr ''undefined'' \<and>
   callable (obj_at (heap st_second) 9) \<and>
   ww_ready spy 13 (VRef 9) st_second =
     (Inr True, snd (spy 9 (VRef 13) (st_second\<lparr>calls := calls st_second @
        [\<lparr>ev_fn = 9, ev_arg = VRef 13, ev_key = None,
          ev_pending = map fst (unready st_second)\<rparr>]\<rparr>))) \<and>
   ww_ready thrower 13 (VRef 9) st_second =
     (Inl Thrown, st_second\<lparr>calls := calls st_second @
        [\<lparr>ev_fn = 9, ev_arg = VRef 13, ev_key = None,
          ev_pending = map fst (unready st_second)\<rparr>]\<rparr>) \<and>
   own (heap st_access) 11 ''type'' = VStr ''undefined'' \<and>
   callable (obj_at (heap st_access) 9) \<and>
   own (heap st_access) 11 ''id'' = VNum 0 \<and>
   map_of (properties st_access) 0 = Some 10 \<and>
   ww_ready spy 11 (VRef 9) st_access
     = (Inr False, st_access\<lparr>unready := ins 0 (VRef 9) (unready st_access)\<rparr>) \<and>
   (\<exists>es. calls (run spy [Tick, Host (host_set 8 ''a'' (VBool True)), Tick, Tick]
                  (st_access\<lparr>unready := ins 0 (VRef 9) (unready st_access)\<rparr>))
            = calls st_access @ es \<and>
          (\<forall>e \<in> set es. ev_key e \<noteq> None) \<and>
          (\<forall>e \<in> set es. ev_key e = Some 0 \<longrightarrow> ev_fn e = 9) \<and>
          length (filter (\<lambda>e. ev_key e = Some 0) es) \<le> 1) \<and>
   calls (run spy [Tick, Host (host_set 8 ''a'' (VBool True)), Tick, Tick]
            (st_access\<lparr>unready := ins 0 (VRef 9) (unready st_access)\<rparr>))
     = [\<lparr>ev_fn = 9, ev_arg = VRef 10, ev_key = Some 0, ev_pending = [0]\<rparr>] \<and>
   typeof (heap st_access) VUndefined \<noteq> ''function'' \<and>
   ww_ready spy 11 VUndefined st_access = (Inr False, st_access) \<and>
   ww_ready spy 13 VUndefined st_second = (Inr True, st_second)"
proof -
  have h2: "steps_opaque [Tick, Host (host_set 8 ''a'' (VBool True)), Tick, Tick]"
    by (simp add: host_opaque_host_set)
  have a1: "own (heap st_second) 13 ''type'' \<noteq> VStr ''undefined''" by code_simp
  have a2: "callable (obj_at (heap st_second) 9)" by code_simp
  have b1: "own (heap st_access) 11 ''type'' = VStr ''undefined''" by code_simp
  have b2: "callable (obj_at (heap st_access) 9)" by code_simp
  have b3: "own (heap st_access) 11 ''id'' = VNum 0" by code_simp
  have b4: "map_of (properties st_access) 0 = Some 10" by code_simp
  have c1: "typeof (heap st_access) VUndefined \<noteq> ''function''" by code_simp
  have c2: "typeof (heap st_second) VUndefined \<noteq> ''function''" by code_simp
  have r: "calls (run spy [Tick, Host (host_set 8 ''a'' (VBool True)), Tick, Tick]
            (st_access\<lparr>unready := ins 0 (VRef 9) (unready st_access)\<rparr>))
     = [\<lparr>ev_fn = 9, ev_arg = VRef 10, ev_key = Some 0, ev_pending = [0]\<rparr>]"
    by code_simp
  note t1 = ready_contract [of st_second 13 9 spy 0 10
      "[Tick, Host (host_set 8 ''a'' (VBool True)), Tick, Tick]" VUndefined]
  note t1' = ready_contract [of st_second 13 9 thrower 0 10
      "[Tick, Host (host_set 8 ''a'' (VBool True)), Tick, Tick]" VUndefined]
  note t2 = ready_contract [of st_access 11 9 spy 0 10
      "[Tick, Host (host_set 8 ''a'' (VBool True)), Tick, Tick]" VUndefined]
  let ?arg = "st_second\<lparr>calls := calls st_second @
        [\<lparr>ev_fn = 9, ev_arg = VRef 13, ev_key = None,
          ev_pending = map fst (unready st_second)\<rparr>]\<rparr>"
  from t1 a1 a2 have "ww_ready spy 13 (VRef 9) st_second =
        (case spy 9 (VRef 13) ?arg of
           (None, st1) \<Rightarrow> (Inr True, st1)
         | (Some e, st1) \<Rightarrow> (Inl e, st1))"
    by blast
  then have x1: "ww_ready spy 13 (VRef 9) st_second = (Inr True, snd (spy 9 (VRef 13) ?arg))"
    by (simp add: spy_def)
  from t1' a1 a2 have "ww_ready thrower 13 (VRef 9) st_second =
        (case thrower 9 (VRef 13) ?arg of
           (None, st1) \<Rightarrow> (Inr True, st1)
         | (Some e, st1) \<Rightarrow> (Inl e, st1))"
    by blast
  then have x1': "ww_ready thrower 13 (VRef 9) st_second = (Inl Thrown, ?arg)"
    by (simp add: thrower_def)
  have x2: "ww_ready spy 13 VUndefined st_second = (Inr True, st_second)"
    using t1 a1 c2 by simp
  have x3: "ww_ready spy 11 VUndefined st_access = (Inr False, st_access)"
    using t2 b1 c1 by simp
  from t2 b1 b2 b3 b4 h2 engine_opaque_spy returns_normally_spy
  have x4: "ww_ready spy 11 (VRef 9) st_access
     = (Inr False, st_access\<lparr>unready := ins 0 (VRef 9) (unready st_access)\<rparr>) \<and>
   (\<exists>es. calls (run spy [Tick, Host (host_set 8 ''a'' (VBool True)), Tick, Tick]
                  (st_access\<lparr>unready := ins 0 (VRef 9) (unready st_access)\<rparr>))
            = calls st_access @ es \<and>
          (\<forall>e \<in> set es. ev_key e \<noteq> None) \<and>
          (\<forall>e \<in> set es. ev_key e = Some 0 \<longrightarrow> ev_fn e = 9) \<and>
          length (filter (\<lambda>e. ev_key e = Some 0) es) \<le> 1)"
    by blast
  from x1 x1' x2 x3 x4 h2 a1 a2 b1 b2 b3 b4 c1 r engine_opaque_spy returns_normally_spy
  show ?thesis by blast
qed

text \<open>
  C10.  \<^verbatim>\<open>ready\<close> decides on the type tag that the snapshot took when it was made.
  A snapshot made by \<^verbatim>\<open>ww(p, c)\<close> while the path did not resolve, in any later
  state that kept the snapshot and the registry and in which the path resolves to a
  value: \<^verbatim>\<open>ready(cb)\<close> answers \<^verbatim>\<open>false\<close> and stores \<^verbatim>\<open>cb\<close> in the pending set
  under the snapshot's id without calling it, and \<^verbatim>\<open>getValue()\<close> on the same snapshot
  returns the value.
\<close>

theorem ready_uses_captured_type:
  assumes acc: "Ww (VStr p) c st0 = (Inr (VRef s), st1)"
    and unresolved: "fst (getProperty p (getContext c (heap st0)) VUndefined (heap st0)) = Inr VUndefined"
    and later_obj: "obj_at (heap st) s = obj_at (heap st1) s"
    and later_reg: "properties st = properties st1"
    and cb: "callable (obj_at (heap st) f)"
    and now: "fst (getProperty p (getContext c (heap st0)) VUndefined (heap st)) = Inr v"
    and v: "v \<noteq> VUndefined"
  shows "ww_ready B s (VRef f) st
           = (Inr False, st\<lparr>unready := ins (counter st0) (VRef f) (unready st)\<rparr>) \<and>
         ww_getValue s d (heap st) = Inr v"
proof -
  from Ww_string_result[OF acc] unresolved have
    s: "s = Suc (length (heap st0))" and
    st1: "st1 = st0\<lparr>heap := heap st0 @
                  [\<lparr>props = [(''context'', getContext c (heap st0)), (''id'', VNum (counter st0)),
                             (''path'', VStr p), (''type'', VStr (typeof (heap st0) VUndefined)),
                             (''value'', VUndefined)], callable = False\<rparr>,
                   \<lparr>props = [(''context'', getContext c (heap st0)), (''id'', VNum (counter st0)),
                             (''path'', VStr p), (''type'', VStr (typeof (heap st0) VUndefined)),
                             (''value'', VUndefined)], callable = False\<rparr>],
                properties := AList.update (counter st0) (length (heap st0)) (properties st0),
                counter := counter st0 + 1\<rparr>"
    by auto
  have o: "obj_at (heap st1) s = \<lparr>props = [(''context'', getContext c (heap st0)), (''id'', VNum (counter st0)),
                             (''path'', VStr p), (''type'', VStr ''undefined''),
                             (''value'', VUndefined)], callable = False\<rparr>"
    unfolding st1 s by (simp add: obj_at_def nth_append typeof_def)
  have f: "own (heap st) s ''type'' = VStr ''undefined''"
    "own (heap st) s ''id'' = VNum (counter st0)"
    "own (heap st) s ''path'' = VStr p"
    "own (heap st) s ''context'' = getContext c (heap st0)"
    by (simp_all add: own_def later_obj o)
  have r: "map_of (properties st) (counter st0) = Some (length (heap st0))"
    unfolding later_reg st1 by (simp add: update_conv')
  show ?thesis
    using f r cb now v
    by (simp add: ww_ready_def PropertiesUnready_set_def typeof_def ww_getValue_def
        getProperty_of_def)
qed

theorem ready_uses_captured_type_witness:
  "Ww (VStr ''a'') (VRef 8) st_fn = (Inr (VRef 11), st_access) \<and>
   fst (getProperty ''a'' (getContext (VRef 8) (heap st_fn)) VUndefined (heap st_fn)) = Inr VUndefined \<and>
   obj_at (heap st_late) 11 = obj_at (heap st_access) 11 \<and>
   properties st_late = properties st_access \<and>
   callable (obj_at (heap st_late) 9) \<and>
   fst (getProperty ''a'' (getContext (VRef 8) (heap st_fn)) VUndefined (heap st_late)) = Inr (VNum 42) \<and>
   ww_ready spy 11 (VRef 9) st_late
     = (Inr False, st_late\<lparr>unready := ins (counter st_fn) (VRef 9) (unready st_late)\<rparr>) \<and>
   ww_getValue 11 VUndefined (heap st_late) = Inr (VNum 42) \<and>
   calls (snd (ww_ready spy 11 (VRef 9) st_late)) = [] \<and>
   calls (run spy [Tick] (snd (ww_ready spy 11 (VRef 9) st_late)))
     = [\<lparr>ev_fn = 9, ev_arg = VRef 10, ev_key = Some 0, ev_pending = [0]\<rparr>]"
proof -
  have h1: "Ww (VStr ''a'') (VRef 8) st_fn = (Inr (VRef 11), st_access)" by code_simp
  have h2: "fst (getProperty ''a'' (getContext (VRef 8) (heap st_fn)) VUndefined (heap st_fn)) = Inr VUndefined"
    by code_simp
  have h3: "obj_at (heap st_late) 11 = obj_at (heap st_access) 11" by code_simp
  have h4: "properties st_late = properties st_access" by code_simp
  have h5: "callable (obj_at (heap st_late) 9)" by code_simp
  have h6: "fst (getProperty ''a'' (getContext (VRef 8) (heap st_fn)) VUndefined (heap st_late)) = Inr (VNum 42)"
    by code_simp
  have h7: "VNum 42 \<noteq> VUndefined" by simp
  have r1: "calls (snd (ww_ready spy 11 (VRef 9) st_late)) = []" by code_simp
  have r2: "calls (run spy [Tick] (snd (ww_ready spy 11 (VRef 9) st_late)))
     = [\<lparr>ev_fn = 9, ev_arg = VRef 10, ev_key = Some 0, ev_pending = [0]\<rparr>]" by code_simp
  note t = ready_uses_captured_type [OF h1 h2 h3 h4 h5 h6 h7, of spy VUndefined]
  from t h1 h2 h3 h4 h5 h6 r1 r2 show ?thesis by blast
qed

section \<open>Lookup by id and snapshots\<close>

text \<open>
  C6.  An access by path issues the next id and leaves a record and a snapshot that
  agree on path and context; an update of a record changes neither.  An access by an
  issued id creates no record (registry and counter are as before) and returns a new
  snapshot, a copy of the record as it is at this second call; its \<^verbatim>\<open>getValue()\<close>
  equals, in the state of the second call, that of every snapshot with the record's
  path and context, the original one among them.  An id that was never issued, below
  zero or from the counter on, gives \<^verbatim>\<open>undefined\<close>.
\<close>

theorem lookup_by_id_roundtrip:
  assumes wf: "wf_state st"
  shows
    "(Ww (VStr p) c st = (Inr (VRef s), st1) \<longrightarrow>
        map_of (properties st1) (counter st) = Some (length (heap st)) \<and>
        s < length (heap st1) \<and> wf_state st1 \<and>
        own (heap st1) s ''id'' = VNum (counter st) \<and>
        own (heap st1) s ''path'' = own (heap st1) (length (heap st)) ''path'' \<and>
        own (heap st1) s ''context'' = own (heap st1) (length (heap st)) ''context'') \<and>
     (own (Property_update r v (heap st)) a ''path'' = own (heap st) a ''path'' \<and>
      own (Property_update r v (heap st)) a ''context'' = own (heap st) a ''context'') \<and>
     (map_of (properties st) i = Some r \<and> s1 < length (heap st) \<and>
      own (heap st) s1 ''path'' = own (heap st) r ''path'' \<and>
      own (heap st) s1 ''context'' = own (heap st) r ''context'' \<longrightarrow>
        Ww (VNum i) c st =
          (Inr (VRef (length (heap st))),
           st\<lparr>heap := heap st @ [\<lparr>props = props (obj_at (heap st) r), callable = False\<rparr>]\<rparr>) \<and>
        ww_getValue (length (heap st)) d
            (heap st @ [\<lparr>props = props (obj_at (heap st) r), callable = False\<rparr>])
          = ww_getValue s1 d
              (heap st @ [\<lparr>props = props (obj_at (heap st) r), callable = False\<rparr>])) \<and>
     (i < 0 \<or> counter st \<le> i \<longrightarrow> Ww (VNum i) c st = (Inr VUndefined, st))"
proof (intro conjI impI)
  assume acc: "Ww (VStr p) c st = (Inr (VRef s), st1)"
  from Ww_string_result[OF acc] obtain v where
    s: "s = Suc (length (heap st))" and
    st1: "st1 = st\<lparr>heap := heap st @
                  [\<lparr>props = [(''context'', getContext c (heap st)), (''id'', VNum (counter st)),
                             (''path'', VStr p), (''type'', VStr (typeof (heap st) v)),
                             (''value'', v)], callable = False\<rparr>,
                   \<lparr>props = [(''context'', getContext c (heap st)), (''id'', VNum (counter st)),
                             (''path'', VStr p), (''type'', VStr (typeof (heap st) v)),
                             (''value'', v)], callable = False\<rparr>],
                properties := AList.update (counter st) (length (heap st)) (properties st),
                counter := counter st + 1\<rparr>"
    by blast
  show "map_of (properties st1) (counter st) = Some (length (heap st))"
    unfolding st1 by (simp add: update_conv')
  show "s < length (heap st1)" unfolding st1 s by simp
  show "wf_state st1" using wf_Ww[OF wf, of "VStr p" c] acc by simp
  show "own (heap st1) s ''id'' = VNum (counter st)"
    unfolding st1 s by (simp add: own_def obj_at_def nth_append)
  show "own (heap st1) s ''path'' = own (heap st1) (length (heap st)) ''path''"
    unfolding st1 s by (simp add: own_def obj_at_def nth_append)
  show "own (heap st1) s ''context'' = own (heap st1) (length (heap st)) ''context''"
    unfolding st1 s by (simp add: own_def obj_at_def nth_append)
next
  show "own (Property_update r v (heap st)) a ''path'' = own (heap st) a ''path''"
    by (simp add: own_Property_update)
  show "own (Property_update r v (heap st)) a ''context'' = own (heap st) a ''context''"
    by (simp add: own_Property_update)
next
  assume a: "map_of (properties st) i = Some r \<and> s1 < length (heap st) \<and>
      own (heap st) s1 ''path'' = own (heap st) r ''path'' \<and>
      own (heap st) s1 ''context'' = own (heap st) r ''context''"
  then show "Ww (VNum i) c st =
          (Inr (VRef (length (heap st))),
           st\<lparr>heap := heap st @ [\<lparr>props = props (obj_at (heap st) r), callable = False\<rparr>]\<rparr>)"
    by (simp add: Ww_def ww_new_def)
  let ?h = "heap st @ [\<lparr>props = props (obj_at (heap st) r), callable = False\<rparr>]"
  have "own ?h (length (heap st)) ''path'' = own ?h s1 ''path''"
    "own ?h (length (heap st)) ''context'' = own ?h s1 ''context''"
    using a by (simp_all add: own_append_props)
  then show "ww_getValue (length (heap st)) d ?h = ww_getValue s1 d ?h"
    by (simp add: ww_getValue_def)
next
  assume "i < 0 \<or> counter st \<le> i"
  from wf_lookup_None[OF wf this] show "Ww (VNum i) c st = (Inr VUndefined, st)"
    by (simp add: Ww_def)
qed

theorem lookup_by_id_roundtrip_witness:
  "wf_state st_fn \<and> wf_state st_ticked \<and>
   Ww (VStr ''a'') (VRef 8) st_fn = (Inr (VRef 11), st_access) \<and>
   map_of (properties st_access) (counter st_fn) = Some (length (heap st_fn)) \<and>
   own (heap st_access) 11 ''id'' = VNum (counter st_fn) \<and>
   own (heap st_access) 11 ''path'' = own (heap st_access) (length (heap st_fn)) ''path'' \<and>
   map_of (properties st_ticked) 0 = Some 10 \<and> (11::nat) < length (heap st_ticked) \<and>
   own (heap st_ticked) 11 ''path'' = own (heap st_ticked) 10 ''path'' \<and>
   own (heap st_ticked) 11 ''context'' = own (heap st_ticked) 10 ''context'' \<and>
   Ww (VNum 0) VUndefined st_ticked =
     (Inr (VRef (length (heap st_ticked))),
      st_ticked\<lparr>heap := heap st_ticked @
         [\<lparr>props = props (obj_at (heap st_ticked) 10), callable = False\<rparr>]\<rparr>) \<and>
   ww_getValue (length (heap st_ticked)) VUndefined
       (heap st_ticked @ [\<lparr>props = props (obj_at (heap st_ticked) 10), callable = False\<rparr>])
     = ww_getValue 11 VUndefined
         (heap st_ticked @ [\<lparr>props = props (obj_at (heap st_ticked) 10), callable = False\<rparr>]) \<and>
   ww_getValue 11 VUndefined
       (heap st_ticked @ [\<lparr>props = props (obj_at (heap st_ticked) 10), callable = False\<rparr>])
     = Inr (VBool True) \<and>
   Ww (VNum (- 1)) VUndefined st_ticked = (Inr VUndefined, st_ticked) \<and>
   Ww (VNum 999999) VUndefined st_ticked = (Inr VUndefined, st_ticked)"
proof -
  have a: "Ww (VStr ''a'') (VRef 8) st_fn = (Inr (VRef 11), st_access)" by code_simp
  have b1: "map_of (properties st_ticked) 0 = Some 10" by code_simp
  have b2: "(11::nat) < length (heap st_ticked)" by code_simp
  have b3: "own (heap st_ticked) 11 ''path'' = own (heap st_ticked) 10 ''path''" by code_simp
  have b4: "own (heap st_ticked) 11 ''context'' = own (heap st_ticked) 10 ''context''" by code_simp
  have c1: "(- 1 :: int) < 0 \<or> counter st_ticked \<le> - 1" by simp
  have c2: "(999999 :: int) < 0 \<or> counter st_ticked \<le> 999999" by code_simp
  have g: "ww_getValue 11 VUndefined
       (heap st_ticked @ [\<lparr>props = props (obj_at (heap st_ticked) 10), callable = False\<rparr>])
     = Inr (VBool True)" by code_simp
  note t1 = lookup_by_id_roundtrip [OF wf_st_fn, where p = "''a''" and c = "VRef 8" and s = 11
      and ?st1.0 = st_access]
  note t2 = lookup_by_id_roundtrip [OF wf_st_ticked, where i = 0 and r = 10 and ?s1.0 = 11
      and c = VUndefined and d = VUndefined]
  note t3 = lookup_by_id_roundtrip [OF wf_st_ticked, where i = "- 1" and c = VUndefined]
  note t4 = lookup_by_id_roundtrip [OF wf_st_ticked, where i = 999999 and c = VUndefined]
  have x1: "map_of (properties st_access) (counter st_fn) = Some (length (heap st_fn)) \<and>
   own (heap st_access) 11 ''id'' = VNum (counter st_fn) \<and>
   own (heap st_access) 11 ''path'' = own (heap st_access) (length (heap st_fn)) ''path''"
    using t1 a by blast
  have x2: "Ww (VNum 0) VUndefined st_ticked =
     (Inr (VRef (length (heap st_ticked))),
      st_ticked\<lparr>heap := heap st_ticked @
         [\<lparr>props = props (obj_at (heap st_ticked) 10), callable = False\<rparr>]\<rparr>) \<and>
   ww_getValue (length (heap st_ticked)) VUndefined
       (heap st_ticked @ [\<lparr>props = props (obj_at (heap st_ticked) 10), callable = False\<rparr>])
     = ww_getValue 11 VUndefined
         (heap st_ticked @ [\<lparr>props = props (obj_at (heap st_ticked) 10), callable = False\<rparr>])"
    using t2 b1 b2 b3 b4 by blast
  have x3: "Ww (VNum (- 1)) VUndefined st_ticked = (Inr VUndefined, st_ticked)"
    using t3 c1 by blast
  have x4: "Ww (VNum 999999) VUndefined st_ticked = (Inr VUndefined, st_ticked)"
    using t4 c2 by blast
  from x1 x2 x3 x4 a b1 b2 b3 b4 g wf_st_fn wf_st_ticked show ?thesis by blast
qed

text \<open>
  C7.  The snapshot that an access returns is a new object.  Assigning to a field of
  it changes no other object: the record is as before, and so is every object that
  existed before the access, the context graph among them.  A fresh access by the id
  returns a snapshot with the fields that the original snapshot had before the
  assignment.
\<close>

theorem snapshot_is_detached:
  assumes wf: "wf_state st" and acc: "Ww x c st = (Inr (VRef s), st1)"
  shows "length (heap st) \<le> s \<and> s < length (heap st1) \<and>
     (\<forall>a. a \<noteq> s \<longrightarrow> obj_at (heap (host_set s k v st1)) a = obj_at (heap st1) a) \<and>
     (\<forall>a < length (heap st). obj_at (heap (host_set s k v st1)) a = obj_at (heap st) a) \<and>
     properties (host_set s k v st1) = properties st1 \<and>
     (\<exists>i r. (x = VNum i \<or> (i = counter st \<and> (\<exists>p. x = VStr p))) \<and>
         map_of (properties st1) i = Some r \<and> r \<noteq> s \<and>
         props (obj_at (heap st1) s) = props (obj_at (heap st1) r) \<and>
         Ww (VNum i) c' (host_set s k v st1) =
           (Inr (VRef (length (heap st1))),
            (host_set s k v st1)\<lparr>heap := heap (host_set s k v st1) @
               [\<lparr>props = props (obj_at (heap st1) s), callable = False\<rparr>]\<rparr>))"
proof -
  have frame: "\<forall>a. a \<noteq> s \<longrightarrow> obj_at (heap (host_set s k v st1)) a = obj_at (heap st1) a"
    by (simp add: host_set_def obj_at_put_other)
  have pr: "properties (host_set s k v st1) = properties st1"
    by (simp add: host_set_def)
  from Ww_other_result[OF acc] show ?thesis
  proof (elim disjE exE)
    fix p assume x: "x = VStr p"
    from Ww_string_result[OF acc[unfolded x]] obtain w where
      s: "s = Suc (length (heap st))" and
      st1: "st1 = st\<lparr>heap := heap st @
                  [\<lparr>props = [(''context'', getContext c (heap st)), (''id'', VNum (counter st)),
                             (''path'', VStr p), (''type'', VStr (typeof (heap st) w)),
                             (''value'', w)], callable = False\<rparr>,
                   \<lparr>props = [(''context'', getContext c (heap st)), (''id'', VNum (counter st)),
                             (''path'', VStr p), (''type'', VStr (typeof (heap st) w)),
                             (''value'', w)], callable = False\<rparr>],
                properties := AList.update (counter st) (length (heap st)) (properties st),
                counter := counter st + 1\<rparr>"
      by blast
    have l: "length (heap st1) = Suc (Suc (length (heap st)))" unfolding st1 by simp
    have old: "\<forall>a < length (heap st). obj_at (heap (host_set s k v st1)) a = obj_at (heap st) a"
    proof (intro allI impI)
      fix a assume a: "a < length (heap st)"
      then have "a \<noteq> s" using s by simp
      with frame have "obj_at (heap (host_set s k v st1)) a = obj_at (heap st1) a" by simp
      also have "\<dots> = obj_at (heap st) a" unfolding st1 using a by simp
      finally show "obj_at (heap (host_set s k v st1)) a = obj_at (heap st) a" .
    qed
    have m: "map_of (properties st1) (counter st) = Some (length (heap st))"
      unfolding st1 by (simp add: update_conv')
    have ne: "length (heap st) \<noteq> s" unfolding s by simp
    have same: "props (obj_at (heap st1) s) = props (obj_at (heap st1) (length (heap st)))"
      unfolding st1 s by (simp add: obj_at_def nth_append)
    have r_kept: "obj_at (heap (host_set s k v st1)) (length (heap st)) = obj_at (heap st1) (length (heap st))"
      using frame ne by simp
    have again: "Ww (VNum (counter st)) c' (host_set s k v st1) =
           (Inr (VRef (length (heap st1))),
            (host_set s k v st1)\<lparr>heap := heap (host_set s k v st1) @
               [\<lparr>props = props (obj_at (heap st1) s), callable = False\<rparr>]\<rparr>)"
      using m r_kept same by (simp add: Ww_def ww_new_def pr) (simp add: host_set_def)
    show ?thesis
      using frame pr old m ne same again x l s by auto
  next
    fix n assume x: "x = VNum n"
    from Ww_num_result[OF acc[unfolded x]] obtain r where
      m0: "map_of (properties st) n = Some r" and s: "s = length (heap st)" and
      st1: "st1 = st\<lparr>heap := heap st @ [\<lparr>props = props (obj_at (heap st) r), callable = False\<rparr>]\<rparr>"
      by blast
    have rb: "r < length (heap st)" using wf_lookup_bound[OF wf m0] .
    have l: "length (heap st1) = Suc (length (heap st))" unfolding st1 by simp
    have old: "\<forall>a < length (heap st). obj_at (heap (host_set s k v st1)) a = obj_at (heap st) a"
    proof (intro allI impI)
      fix a assume a: "a < length (heap st)"
      then have "a \<noteq> s" using s by simp
      with frame have "obj_at (heap (host_set s k v st1)) a = obj_at (heap st1) a" by simp
      also have "\<dots> = obj_at (heap st) a" unfolding st1 using a by simp
      finally show "obj_at (heap (host_set s k v st1)) a = obj_at (heap st) a" .
    qed
    have m: "map_of (properties st1) n = Some r" unfolding st1 using m0 by simp
    have ne: "r \<noteq> s" using rb s by simp
    have same: "props (obj_at (heap st1) s) = props (obj_at (heap st1) r)"
      unfolding st1 s using rb by simp
    have r_kept: "obj_at (heap (host_set s k v st1)) r = obj_at (heap st1) r"
      using frame ne by simp
    have again: "Ww (VNum n) c' (host_set s k v st1) =
           (Inr (VRef (length (heap st1))),
            (host_set s k v st1)\<lparr>heap := heap (host_set s k v st1) @
               [\<lparr>props = props (obj_at (heap st1) s), callable = False\<rparr>]\<rparr>)"
      using m r_kept same by (simp add: Ww_def ww_new_def pr) (simp add: host_set_def)
    show ?thesis
      using frame pr old m ne same again x l s by auto
  qed
qed

theorem snapshot_is_detached_witness:
  "wf_state st_resolvable \<and>
   Ww (VStr ''a'') (VRef 8) st_resolvable = (Inr (VRef 13), st_second) \<and>
   own (heap st_second) 13 ''value'' = VBool True \<and>
   own (heap (host_set 13 ''value'' (VBool False) st_second)) 13 ''value'' = VBool False \<and>
   obj_at (heap (host_set 13 ''value'' (VBool False) st_second)) 12 = obj_at (heap st_second) 12 \<and>
   obj_at (heap (host_set 13 ''value'' (VBool False) st_second)) 8 = obj_at (heap st_resolvable) 8 \<and>
   own (heap (host_set 13 ''value'' (VBool False) st_second)) 8 ''a'' = VBool True \<and>
   properties (host_set 13 ''value'' (VBool False) st_second) = properties st_second \<and>
   fst (Ww (VNum 1) VUndefined (host_set 13 ''value'' (VBool False) st_second)) = Inr (VRef 14) \<and>
   own (heap (snd (Ww (VNum 1) VUndefined (host_set 13 ''value'' (VBool False) st_second)))) 14
       ''value'' = VBool True"
proof -
  have a: "Ww (VStr ''a'') (VRef 8) st_resolvable = (Inr (VRef 13), st_second)" by code_simp
  have l: "(8::nat) < length (heap st_resolvable)" by code_simp
  have e1: "own (heap st_second) 13 ''value'' = VBool True" by code_simp
  have e2: "own (heap (host_set 13 ''value'' (VBool False) st_second)) 13 ''value'' = VBool False"
    by code_simp
  have e3: "own (heap (host_set 13 ''value'' (VBool False) st_second)) 8 ''a'' = VBool True"
    by code_simp
  have e4: "fst (Ww (VNum 1) VUndefined (host_set 13 ''value'' (VBool False) st_second)) = Inr (VRef 14)"
    by code_simp
  have e5: "own (heap (snd (Ww (VNum 1) VUndefined (host_set 13 ''value'' (VBool False) st_second)))) 14
       ''value'' = VBool True" by code_simp
  note t = snapshot_is_detached [OF wf_st_resolvable a, of "''value''" "VBool False" VUndefined]
  from t have "\<forall>a. a \<noteq> 13 \<longrightarrow>
      obj_at (heap (host_set 13 ''value'' (VBool False) st_second)) a = obj_at (heap st_second) a"
    by blast
  then have x1: "obj_at (heap (host_set 13 ''value'' (VBool False) st_second)) 12 = obj_at (heap st_second) 12"
    by simp
  from t have "\<forall>a < length (heap st_resolvable).
      obj_at (heap (host_set 13 ''value'' (VBool False) st_second)) a = obj_at (heap st_resolvable) a"
    by blast
  with l have x2: "obj_at (heap (host_set 13 ''value'' (VBool False) st_second)) 8 = obj_at (heap st_resolvable) 8"
    by blast
  from t have x3: "properties (host_set 13 ''value'' (VBool False) st_second) = properties st_second"
    by blast
  from x1 x2 x3 a e1 e2 e3 e4 e5 wf_st_resolvable show ?thesis by blast
qed

section \<open>The resolver with an extension value\<close>

text \<open>
  C2.  The claim: a missing segment that is not the last one is set to a fresh empty
  container, and only the last one to the extension value.  The resolver on the path
  \<^verbatim>\<open>'a.b'\<close>, the context \<^verbatim>\<open>{}\<close> and the extension value \<^verbatim>\<open>true\<close>: the segment
  \<^verbatim>\<open>a\<close>, which is not the last one, is set to \<^verbatim>\<open>true\<close>, and the assignment of
  \<^verbatim>\<open>b\<close> on that primitive throws.
\<close>

theorem getProperty_extends_every_segment_with_value:
  "getProperty ''a.b'' (VRef 8) (VBool True) (heap st_mock)
     = (Inl TypeError, put (heap st_mock) 8 ''a'' (VBool True))"
  by (simp add: scenario_defs code_defs)

text \<open>
  C3, as the claim states it: \<^verbatim>\<open>extend\<close> updates the value of the live record, and
  a later lookup of the id sees the new value.  With \<^verbatim>\<open>mock = {}\<close> and
  \<^verbatim>\<open>s = ww('a', mock)\<close>, \<^verbatim>\<open>s.extend(true)\<close> returns \<^verbatim>\<open>true\<close>, and the record
  still has the value \<^verbatim>\<open>undefined\<close> and the type \<^verbatim>\<open>'undefined'\<close>, as has the
  snapshot that \<^verbatim>\<open>ww(0)\<close> makes of it.
\<close>

theorem extend_no_record_update_counterexample:
  "fst (ww_extend 11 (VBool True) st_access) = Inr (VBool True) \<and>
   own (heap (snd (ww_extend 11 (VBool True) st_access))) 10 ''value'' = VUndefined \<and>
   own (heap (snd (ww_extend 11 (VBool True) st_access))) 10 ''type'' = VStr ''undefined'' \<and>
   fst (Ww (VNum 0) VUndefined (snd (ww_extend 11 (VBool True) st_access))) = Inr (VRef 12) \<and>
   own (heap (snd (Ww (VNum 0) VUndefined (snd (ww_extend 11 (VBool True) st_access))))) 12
       ''value'' = VUndefined"
  by code_simp

text \<open>
  C3, amended.  \<^verbatim>\<open>extend\<close> never updates the record.  It leaves the registry, the
  counter and the pending set as they are; every property of every object that had a
  value keeps it (the type tag of the record among them), and so does every property
  whose name is not a segment of the path.  When the path resolves to a value,
  \<^verbatim>\<open>extend\<close> returns that value and writes nothing.  When the segments before the
  last one resolve to an object that lacks the last one, \<^verbatim>\<open>extend\<close> sets the last
  segment on that object to the value supplied (to a new empty object when none is)
  and returns it.  Whenever \<^verbatim>\<open>extend\<close> returns a value, \<^verbatim>\<open>getValue()\<close> on a snapshot
  of the same path and context returns that value afterwards.
\<close>

theorem extend_creates_and_keeps_record:
  "properties (snd (ww_extend s x st)) = properties st \<and>
   counter (snd (ww_extend s x st)) = counter st \<and>
   unready (snd (ww_extend s x st)) = unready st \<and>
   (\<forall>a k. own (heap st) a k \<noteq> VUndefined \<longrightarrow>
      own (heap (snd (ww_extend s x st))) a k = own (heap st) a k) \<and>
   (\<forall>a k. own (heap st) s ''path'' = VStr p \<and> k \<notin> set (split_dot p) \<longrightarrow>
      own (heap (snd (ww_extend s x st))) a k = own (heap st) a k) \<and>
   (fst (getProperty_of (own (heap st) s ''path'') (own (heap st) s ''context'') VUndefined
           (heap st)) = Inr v \<and> v \<noteq> VUndefined \<longrightarrow>
      ww_extend s x st =
        (Inr v, st\<lparr>heap := (if x = VUndefined then heap st @ [empty_obj] else heap st)\<rparr>)) \<and>
   (own (heap st) s ''path'' = VStr p \<and> split_dot p = ks @ [k] \<and>
    fst (walk ks (own (heap st) s ''context'') VUndefined (heap st)) = Inr (VRef b) \<and>
    b < length (heap st) \<and> own (heap st) b k = VUndefined \<longrightarrow>
      ww_extend s x st =
        (if x = VUndefined
         then (Inr (VRef (length (heap st))),
               st\<lparr>heap := put (heap st @ [empty_obj]) b k (VRef (length (heap st)))\<rparr>)
         else (Inr x, st\<lparr>heap := put (heap st) b k x\<rparr>))) \<and>
   (fst (ww_extend s x st) = Inr w \<and> w \<noteq> VUndefined \<and>
    own (heap st) s' ''path'' = own (heap st) s ''path'' \<and>
    own (heap st) s' ''context'' = own (heap st) s ''context'' \<longrightarrow>
      ww_getValue s' d (heap (snd (ww_extend s x st))) = Inr w)"
proof -
  define e where "e = (if x = VUndefined then VRef (length (heap st)) else x)"
  define h1 where "h1 = (if x = VUndefined then heap st @ [empty_obj] else heap st)"
  define q where "q = own (heap st) s ''path''"
  define c where "c = own (heap st) s ''context''"
  have e: "e \<noteq> VUndefined" by (simp add: e_def)
  have o1: "own h1 a k = own (heap st) a k" for a k
    by (simp add: h1_def)
  have l1: "length (heap st) \<le> length h1" by (simp add: h1_def)
  have ext: "ww_extend s x st =
      (fst (getProperty_of q c e h1), st\<lparr>heap := snd (getProperty_of q c e h1)\<rparr>)"
    by (simp add: ww_extend_def e_def h1_def q_def c_def Let_def split_beta)
  have noext: "fst (walk ks' prev VUndefined h1) = fst (walk ks' prev VUndefined (heap st))" for ks' prev
    by (simp add: h1_def walk_noext_append_empty)
  have keep: "own (snd (getProperty_of q c e h1)) a k = own (heap st) a k"
    if "own (heap st) a k \<noteq> VUndefined \<or> (\<exists>p. q = VStr p \<and> k \<notin> set (split_dot p))"
    for a k
  proof (cases q)
    case (VStr p)
    with that have "own h1 a k \<noteq> VUndefined \<or> k \<notin> set (split_dot p)" by (auto simp: o1)
    from walk_keeps[OF this] VStr show ?thesis
      by (simp add: getProperty_of_def getProperty_def o1)
  qed (simp_all add: getProperty_of_def o1)
  have res: "ww_extend s x st = (Inr v, st\<lparr>heap := h1\<rparr>)"
    if r: "fst (getProperty_of q c VUndefined (heap st)) = Inr v" and v: "v \<noteq> VUndefined"
  proof -
    from r obtain p where p: "q = VStr p"
      by (cases q) (auto simp: getProperty_of_def)
    from r p have "fst (walk (split_dot p) c VUndefined (heap st)) = Inr v"
      by (simp add: getProperty_of_def getProperty_def)
    then have "fst (walk (split_dot p) c VUndefined h1) = Inr v"
      by (simp add: noext)
    from walk_resolved[OF this v] show ?thesis
      unfolding ext using p by (simp add: getProperty_of_def getProperty_def)
  qed
  have last: "ww_extend s x st = (Inr e, st\<lparr>heap := put h1 b k e\<rparr>)"
    if p: "q = VStr p" and sp: "split_dot p = ks @ [k]"
      and r: "fst (walk ks c VUndefined (heap st)) = Inr (VRef b)"
      and b: "b < length (heap st)" and u: "own (heap st) b k = VUndefined"
  proof -
    from r have "fst (walk ks c VUndefined h1) = Inr (VRef b)" by (simp add: noext)
    from walk_resolved[OF this, of e] have w: "walk ks c e h1 = (Inr (VRef b), h1)" by simp
    have b1: "b < length h1" using b l1 by simp
    have "walk [k] (VRef b) e h1 = (Inr e, put h1 b k e)"
      using u e b1 by (simp add: o1 own_put)
    with w have "walk (ks @ [k]) c e h1 = (Inr e, put h1 b k e)"
      by (simp add: walk_append[OF e])
    then show ?thesis
      unfolding ext using p sp by (simp add: getProperty_of_def getProperty_def)
  qed
  have after: "ww_getValue s' d (heap (snd (ww_extend s x st))) = Inr w"
    if r: "fst (ww_extend s x st) = Inr w" and w: "w \<noteq> VUndefined"
      and sp: "own (heap st) s' ''path'' = q" and sc: "own (heap st) s' ''context'' = c"
  proof -
    from r have g: "fst (getProperty_of q c e h1) = Inr w" by (simp add: ext)
    then obtain p where p: "q = VStr p"
      by (cases q) (auto simp: getProperty_of_def)
    let ?h' = "snd (walk (split_dot p) c e h1)"
    from g p have wk: "walk (split_dot p) c e h1 = (Inr w, ?h')"
      by (simp add: getProperty_of_def getProperty_def prod_eq_iff)
    have cdef: "c \<noteq> VUndefined"
    proof
      assume "c = VUndefined"
      with wk show False by (cases "split_dot p") auto
    qed
    have h': "heap (snd (ww_extend s x st)) = ?h'"
      by (simp add: ext p getProperty_of_def getProperty_def)
    have kp: "own ?h' s' ''path'' = VStr p"
      using keep[of s' "''path''"] sp p by (simp add: getProperty_of_def getProperty_def)
    have kc: "own ?h' s' ''context'' = c"
      using keep[of s' "''context''"] sc cdef p by (simp add: getProperty_of_def getProperty_def)
    from walk_then_resolves[OF wk w] have "walk (split_dot p) c VUndefined ?h' = (Inr w, ?h')"
      by simp
    then show ?thesis
      unfolding h' using kp kc w by (simp add: ww_getValue_def getProperty_of_def getProperty_def)
  qed
  have f1: "\<forall>a k. own (heap st) a k \<noteq> VUndefined \<longrightarrow>
      own (heap (snd (ww_extend s x st))) a k = own (heap st) a k"
    unfolding ext using keep by simp
  have f2: "\<forall>a k. own (heap st) s ''path'' = VStr p \<and> k \<notin> set (split_dot p) \<longrightarrow>
      own (heap (snd (ww_extend s x st))) a k = own (heap st) a k"
  proof (intro allI impI)
    fix a k assume "own (heap st) s ''path'' = VStr p \<and> k \<notin> set (split_dot p)"
    then have "\<exists>p. q = VStr p \<and> k \<notin> set (split_dot p)" by (auto simp: q_def)
    with keep[of a k] show "own (heap (snd (ww_extend s x st))) a k = own (heap st) a k"
      unfolding ext by simp
  qed
  have f3: "fst (getProperty_of (own (heap st) s ''path'') (own (heap st) s ''context'') VUndefined
           (heap st)) = Inr v \<and> v \<noteq> VUndefined \<longrightarrow>
      ww_extend s x st =
        (Inr v, st\<lparr>heap := (if x = VUndefined then heap st @ [empty_obj] else heap st)\<rparr>)"
    using res unfolding q_def c_def h1_def by blast
  have f4: "own (heap st) s ''path'' = VStr p \<and> split_dot p = ks @ [k] \<and>
    fst (walk ks (own (heap st) s ''context'') VUndefined (heap st)) = Inr (VRef b) \<and>
    b < length (heap st) \<and> own (heap st) b k = VUndefined \<longrightarrow>
      ww_extend s x st =
        (if x = VUndefined
         then (Inr (VRef (length (heap st))),
               st\<lparr>heap := put (heap st @ [empty_obj]) b k (VRef (length (heap st)))\<rparr>)
         else (Inr x, st\<lparr>heap := put (heap st) b k x\<rparr>))"
    using last unfolding q_def c_def h1_def e_def by auto
  have f5: "fst (ww_extend s x st) = Inr w \<and> w \<noteq> VUndefined \<and>
    own (heap st) s' ''path'' = own (heap st) s ''path'' \<and>
    own (heap st) s' ''context'' = own (heap st) s ''context'' \<longrightarrow>
      ww_getValue s' d (heap (snd (ww_extend s x st))) = Inr w"
    using after unfolding q_def c_def by blast
  have f0: "properties (snd (ww_extend s x st)) = properties st \<and>
   counter (snd (ww_extend s x st)) = counter st \<and>
   unready (snd (ww_extend s x st)) = unready st"
    by (simp add: ext)
  from f0 f1 f2 f3 f4 f5 show ?thesis by blast
qed

theorem extend_creates_and_keeps_record_witness:
  "properties (snd (ww_extend 11 (VBool True) st_access)) = properties st_access \<and>
   counter (snd (ww_extend 11 (VBool True) st_access)) = counter st_access \<and>
   own (heap st_access) 10 ''type'' \<noteq> VUndefined \<and>
   own (heap (snd (ww_extend 11 (VBool True) st_access))) 10 ''type'' = own (heap st_access) 10 ''type'' \<and>
   own (heap st_access) 11 ''path'' = VStr ''a'' \<and> ''value'' \<notin> set (split_dot ''a'') \<and>
   own (heap (snd (ww_extend 11 (VBool True) st_access))) 10 ''value''
     = own (heap st_access) 10 ''value'' \<and>
   fst (getProperty_of (own (heap st_second) 13 ''path'') (own (heap st_second) 13 ''context'')
          VUndefined (heap st_second)) = Inr (VBool True) \<and>
   ww_extend 13 (VBool False) st_second = (Inr (VBool True), st_second) \<and>
   split_dot ''a'' = [] @ [''a''] \<and>
   fst (walk [] (own (heap st_access) 11 ''context'') VUndefined (heap st_access)) = Inr (VRef 8) \<and>
   (8::nat) < length (heap st_access) \<and> own (heap st_access) 8 ''a'' = VUndefined \<and>
   ww_extend 11 (VBool True) st_access
     = (Inr (VBool True), st_access\<lparr>heap := put (heap st_access) 8 ''a'' (VBool True)\<rparr>) \<and>
   ww_extend 11 VUndefined st_access
     = (Inr (VRef (length (heap st_access))),
        st_access\<lparr>heap := put (heap st_access @ [empty_obj]) 8 ''a''
                               (VRef (length (heap st_access)))\<rparr>) \<and>
   ww_getValue 11 VUndefined (heap (snd (ww_extend 11 (VBool True) st_access))) = Inr (VBool True)"
proof -
  have a1: "own (heap st_access) 10 ''type'' \<noteq> VUndefined" by code_simp
  have a2: "own (heap st_access) 11 ''path'' = VStr ''a''" by code_simp
  have a3: "''value'' \<notin> set (split_dot ''a'')" by code_simp
  have b1: "fst (getProperty_of (own (heap st_second) 13 ''path'') (own (heap st_second) 13 ''context'')
          VUndefined (heap st_second)) = Inr (VBool True)" by code_simp
  have b2: "VBool True \<noteq> VUndefined" "VBool True \<noteq> VUndefined \<and> VBool False \<noteq> VUndefined"
    by simp_all
  have c1: "split_dot ''a'' = [] @ [''a'']" by code_simp
  have c2: "fst (walk [] (own (heap st_access) 11 ''context'') VUndefined (heap st_access)) = Inr (VRef 8)"
    by code_simp
  have c3: "(8::nat) < length (heap st_access)" by code_simp
  have c4: "own (heap st_access) 8 ''a'' = VUndefined" by code_simp
  note t1 = extend_creates_and_keeps_record [of 11 "VBool True" st_access "''a''" _ "[]" "''a''" 8
      "VBool True" 11 VUndefined]
  note t2 = extend_creates_and_keeps_record [of 13 "VBool False" st_second _ "VBool True"]
  note t3 = extend_creates_and_keeps_record [of 11 VUndefined st_access "''a''" _ "[]" "''a''" 8]
  have x1: "properties (snd (ww_extend 11 (VBool True) st_access)) = properties st_access \<and>
   counter (snd (ww_extend 11 (VBool True) st_access)) = counter st_access"
    using t1 by blast
  have x2: "own (heap (snd (ww_extend 11 (VBool True) st_access))) 10 ''type'' = own (heap st_access) 10 ''type''"
    using t1 a1 by blast
  have x3: "own (heap (snd (ww_extend 11 (VBool True) st_access))) 10 ''value''
     = own (heap st_access) 10 ''value''"
    using t1 a2 a3 by blast
  have "ww_extend 13 (VBool False) st_second =
      (Inr (VBool True),
       st_second\<lparr>heap := (if VBool False = VUndefined then heap st_second @ [empty_obj]
                          else heap st_second)\<rparr>)"
    using t2 b1 b2 by blast
  then have x4: "ww_extend 13 (VBool False) st_second = (Inr (VBool True), st_second)" by simp
  have "ww_extend 11 (VBool True) st_access =
        (if VBool True = VUndefined
         then (Inr (VRef (length (heap st_access))),
               st_access\<lparr>heap := put (heap st_access @ [empty_obj]) 8 ''a''
                                      (VRef (length (heap st_access)))\<rparr>)
         else (Inr (VBool True), st_access\<lparr>heap := put (heap st_access) 8 ''a'' (VBool True)\<rparr>))"
    using t1 a2 c1 c2 c3 c4 by blast
  then have x5: "ww_extend 11 (VBool True) st_access
     = (Inr (VBool True), st_access\<lparr>heap := put (heap st_access) 8 ''a'' (VBool True)\<rparr>)"
    by simp
  have "ww_extend 11 VUndefined st_access =
        (if VUndefined = VUndefined
         then (Inr (VRef (length (heap st_access))),
               st_access\<lparr>heap := put (heap st_access @ [empty_obj]) 8 ''a''
                                      (VRef (length (heap st_access)))\<rparr>)
         else (Inr VUndefined, st_access\<lparr>heap := put (heap st_access) 8 ''a'' VUndefined\<rparr>))"
    using t3 a2 c1 c2 c3 c4 by blast
  then have x6: "ww_extend 11 VUndefined st_access
     = (Inr (VRef (length (heap st_access))),
        st_access\<lparr>heap := put (heap st_access @ [empty_obj]) 8 ''a''
                               (VRef (length (heap st_access)))\<rparr>)"
    by simp
  have "fst (ww_extend 11 (VBool True) st_access) = Inr (VBool True)" using x5 by simp
  with t1 b2 have x7: "ww_getValue 11 VUndefined (heap (snd (ww_extend 11 (VBool True) st_access)))
     = Inr (VBool True)"
    by blast
  from x1 x2 x3 x4 x5 x6 x7 a1 a2 a3 b1 c1 c2 c3 c4 show ?thesis by blast
qed

text \<open>
  C5.  The claim: \<^verbatim>\<open>extend(v)\<close> on a path that does not resolve creates the chain of
  the missing segments, and a later \<^verbatim>\<open>access(p, c).getValue()\<close> is \<^verbatim>\<open>v\<close>.  On the
  snapshot of \<^verbatim>\<open>ww('a.b', {})\<close>, \<^verbatim>\<open>extend(true)\<close> throws, and the later access reads
  \<^verbatim>\<open>undefined\<close>.
\<close>

theorem extend_nested_throws:
  "fst (Ww (VStr ''a.b'') (VRef 8) st_mock) = Inr (VRef 10) \<and>
   fst (ww_extend 10 (VBool True) st_ab) = Inl TypeError \<and>
   fst (Ww (VStr ''a.b'') (VRef 8) (snd (ww_extend 10 (VBool True) st_ab))) = Inr (VRef 12) \<and>
   ww_getValue 12 VUndefined
     (heap (snd (Ww (VStr ''a.b'') (VRef 8) (snd (ww_extend 10 (VBool True) st_ab)))))
     = Inr VUndefined"
  by code_simp

section \<open>The facade\<close>

text \<open>
  C8.  The claim: a context that is not an object or a function is replaced by the
  root object, and the call never throws.  \<^verbatim>\<open>typeof null\<close> is \<^verbatim>\<open>'object'\<close>, so the
  context \<^verbatim>\<open>null\<close> is kept, and \<^verbatim>\<open>ww('a', null)\<close> throws on the first segment.
\<close>

theorem Ww_null_context_throws:
  "getContext VNull (heap init) = VNull \<and>
   Ww (VStr ''a'') VNull init = (Inl TypeError, init)"
  by (simp add: scenario_defs code_defs)

end
